theory Spec2Isabelle
  imports Complex_Main
begin

section \<open>JavaScript numbers and operators used by dateTimeUtils.js\<close>

text \<open>
  The library computes with JavaScript numbers, which are IEEE 754 binary64
  values (doubles). Every value that the calendar functions handle is an
  integer, and the only non-integers are the quotients produced by \<^verbatim>\<open>/\<close>
  before \<^verbatim>\<open>Math.floor\<close> or \<^verbatim>\<open>>> 0\<close> is applied to them, and the result of
  \<^verbatim>\<open>ISO_HMStoPercents\<close>. Integers are \<^typ>\<open>int\<close> and quotients are \<^typ>\<open>rat\<close>.

  Sums, differences and products of integers are exact in doubles while they
  stay below \<open>2 ^ 53\<close> in magnitude, and the rounded quotient of such an integer
  by a positive integer has the same floor as the exact quotient. Beyond that
  the result of every operation is rounded to the nearest double. The two
  conversions between Julian Day and civil date, \<^verbatim>\<open>JDtoYMD\<close> and
  \<^verbatim>\<open>YMDtoJD\<close>, take arguments of any size, so their model rounds after
  every operation (\<open>jadd\<close>, \<open>jsub\<close>, \<open>jmul\<close>, \<open>jquot\<close> below). The other
  functions are written with the exact operations; what is proved of them is
  about years below \<open>2 ^ 31\<close>, months, days and times of day, where nothing is
  rounded, and the percentage of \<^verbatim>\<open>ISO_HMStoPercents\<close> is the exact quotient,
  which the double approximates to its last bit.

  A parameter that the source defaults with \<^verbatim>\<open>||\<close> can also be absent
  (\<^verbatim>\<open>undefined\<close>) or \<^verbatim>\<open>NaN\<close>; such parameters have the type \<open>jsval\<close>.
  An integer argument is taken to be a number that the caller can pass, that is,
  a double.
\<close>

datatype jsval = Undefined | NaN | Num int

text \<open>\<^verbatim>\<open>v || k\<close> for a number \<open>k\<close>: \<^verbatim>\<open>undefined\<close>, \<^verbatim>\<open>NaN\<close> and \<^verbatim>\<open>0\<close> are falsy.\<close>

fun or_default :: "jsval \<Rightarrow> int \<Rightarrow> int" where
  "or_default Undefined k = k"
| "or_default NaN k = k"
| "or_default (Num n) k = (if n = 0 then k else n)"

text \<open>\<^verbatim>\<open>a / b\<close> on integers, exact.\<close>

definition jsdiv :: "int \<Rightarrow> int \<Rightarrow> rat" where
  "jsdiv a b = of_int a / of_int b"

definition Math_floor :: "rat \<Rightarrow> int" where
  "Math_floor q = \<lfloor>q\<rfloor>"

text \<open>
  \<^verbatim>\<open>q >> 0\<close> is the abstract operation ToInt32: drop the fraction (towards
  zero), then wrap into the signed 32-bit range.
\<close>

definition trunc :: "rat \<Rightarrow> int" where
  "trunc q = (if 0 \<le> q then \<lfloor>q\<rfloor> else \<lceil>q\<rceil>)"

definition ToInt32 :: "rat \<Rightarrow> int" where
  "ToInt32 q = (trunc q + 2147483648) mod 4294967296 - 2147483648"

text \<open>
  \<^verbatim>\<open>a % b\<close> on integers with \<open>b \<noteq> 0\<close>: the remainder of the truncating
  division, which carries the sign of the dividend.
\<close>

definition js_rem :: "int \<Rightarrow> int \<Rightarrow> int" where
  "js_rem a b = sgn a * (\<bar>a\<bar> mod \<bar>b\<bar>)"

section \<open>Rounding to a double\<close>

text \<open>
  \<open>fl q\<close> is the double nearest to the rational \<open>q\<close>, ties going to the even
  significand: with \<open>2 ^ e \<le> \<bar>q\<bar> < 2 ^ (e + 1)\<close> the doubles around \<open>q\<close> are
  the multiples of \<open>2 ^ (e - 52)\<close>. \<open>bits n\<close> is the number of binary digits
  of a positive integer, and \<open>ilog2 q\<close> is the exponent \<open>e\<close>. Overflow (from
  \<open>2 ^ 1024\<close>) and the subnormal range (below \<open>2 ^ - 1022\<close>) are not modelled;
  no quotient of this library comes near them.
\<close>

function bits :: "int \<Rightarrow> nat" where
  "bits n = (if n \<le> 0 then 0 else Suc (bits (n div 2)))"
  by pat_completeness auto
termination
  by (relation "measure nat") auto

definition ilog2 :: "rat \<Rightarrow> int" where
  "ilog2 q =
    (if 1 \<le> \<bar>q\<bar> then int (bits \<lfloor>\<bar>q\<bar>\<rfloor>) - 1 else - int (bits (\<lceil>1 / \<bar>q\<bar>\<rceil> - 1)))"

definition pow2 :: "int \<Rightarrow> rat" where
  "pow2 k = (if 0 \<le> k then 2 ^ nat k else 1 / 2 ^ nat (- k))"

definition round_even :: "rat \<Rightarrow> int" where
  "round_even x =
    (let f = \<lfloor>x\<rfloor>; r = x - of_int f
     in if r < 1 / 2 then f else if 1 / 2 < r then f + 1 else if even f then f else f + 1)"

definition fl :: "rat \<Rightarrow> rat" where
  "fl q = (if q = 0 then 0 else (let u = pow2 (ilog2 q - 52) in u * of_int (round_even (q / u))))"

text \<open>
  The rounded value of an integer is an integer again (it is the integer itself
  below \<open>2 ^ 53\<close> and a multiple of a power of two above). \<open>jadd\<close>, \<open>jsub\<close> and
  \<open>jmul\<close> are \<^verbatim>\<open>+\<close>, \<^verbatim>\<open>-\<close> and \<^verbatim>\<open>*\<close> on integer-valued doubles, and
  \<open>jquot\<close> is \<^verbatim>\<open>/\<close>.
\<close>

definition rnd :: "int \<Rightarrow> int" where
  "rnd n = \<lfloor>fl (of_int n)\<rfloor>"

definition jadd :: "int \<Rightarrow> int \<Rightarrow> int" where
  "jadd a b = rnd (a + b)"

definition jsub :: "int \<Rightarrow> int \<Rightarrow> int" where
  "jsub a b = rnd (a - b)"

definition jmul :: "int \<Rightarrow> int \<Rightarrow> int" where
  "jmul a b = rnd (a * b)"

definition jquot :: "int \<Rightarrow> int \<Rightarrow> rat" where
  "jquot a b = fl (of_int a / of_int b)"

section \<open>Civil date and Julian Day\<close>

text \<open>
  \<^verbatim>\<open>JDtoYMD\<close> (source lines 111-124). The returned three-element array
  \<^verbatim>\<open>[ year, month, day ]\<close> is a triple. Each operator of the source is one
  rounded operation, in the order in which JavaScript evaluates the expression.
\<close>

definition JDtoYMD :: "int \<Rightarrow> int \<times> int \<times> int" where
  "JDtoYMD JD =
    (let a = jadd JD 32044;
         b = Math_floor (jquot (jadd (jmul 4 a) 3) 146097);
         c = jsub a (Math_floor (jquot (jmul 146097 b) 4));
         d = Math_floor (jquot (jadd (jmul 4 c) 3) 1461);
         e = jsub c (Math_floor (jquot (jmul 1461 d) 4));
         m = Math_floor (jquot (jadd (jmul 5 e) 2) 153);
         mnth = jsub (jadd m 3) (jmul 12 (Math_floor (jquot m 10)));
         day = jadd (jsub e (Math_floor (jquot (jadd (jmul 153 m) 2) 5))) 1
     in (jadd (jsub (jadd (jmul 100 b) d) 4800) (Math_floor (jquot m 10)), mnth, day))"

text \<open>
  \<^verbatim>\<open>YMDtoJD\<close> (source lines 146-153). The year is a number; the month is
  replaced by 1 when falsy (\<^verbatim>\<open>month || ( month = 1 )\<close>) and the day likewise
  (\<^verbatim>\<open>+day || 1\<close>). The returned sum is evaluated from left to right.
\<close>

definition YMDtoJD :: "int \<Rightarrow> jsval \<Rightarrow> jsval \<Rightarrow> int" where
  "YMDtoJD year month day =
    (let month = or_default month 1;
         a = Math_floor (jquot (jsub 14 month) 12);
         y = jsub (jadd year 4800) a;
         m = jsub (jadd month (jmul 12 a)) 3;
         s1 = jadd (or_default day 1) (Math_floor (jquot (jadd (jmul 153 m) 2) 5));
         s2 = jadd s1 (jmul 365 y);
         s3 = jadd s2 (Math_floor (jquot y 4));
         s4 = jsub s3 (Math_floor (jquot y 100));
         s5 = jadd s4 (Math_floor (jquot y 400))
     in jsub s5 32045)"

text \<open>
  \<^verbatim>\<open>YMDtoDayOfWeek\<close> (source lines 351-358). The same formula as \<^verbatim>\<open>YMDtoJD\<close>,
  but every quotient is cut with \<^verbatim>\<open>>> 0\<close> and the sum is reduced with
  \<^verbatim>\<open>% 7\<close>. None of the three parameters is defaulted. Written with the
  exact operations.
\<close>

definition YMDtoDayOfWeek :: "int \<Rightarrow> int \<Rightarrow> int \<Rightarrow> int" where
  "YMDtoDayOfWeek year month day =
    (let m = ToInt32 (jsdiv (14 - month) 12);
         y = year + 4800 - m;
         r = js_rem (day + ToInt32 (jsdiv (153 * (month + 12 * m - 3) + 2) 5) + 365 * y
                + ToInt32 (jsdiv y 4) - ToInt32 (jsdiv y 100) + ToInt32 (jsdiv y 400) - 32045) 7 + 1
     in if r = 7 then 0 else r)"

section \<open>ISO week arithmetic\<close>

text \<open>\<^verbatim>\<open>YWDoWtoJD\<close> (source lines 163-169).\<close>

definition YWDoWtoJD :: "int \<Rightarrow> int \<Rightarrow> jsval \<Rightarrow> int" where
  "YWDoWtoJD year week dow =
    (let dowby = or_default (Num (YMDtoDayOfWeek year 1 1)) 7;
         jd = (if dowby > 1 \<and> dowby < 5 then YMDtoJD (year - 1) (Num 12) (Num (33 - dowby))
               else YMDtoJD year (Num 1) (Num (if dowby = 1 then 1 else 9 - dowby)))
     in jd + 7 * (week - 1) + or_default dow 1 - 1)"

text \<open>
  \<^verbatim>\<open>YMDtoYWd_\<close> (source lines 80-92). The assignment
  \<^verbatim>\<open>fwjd = YWDoWtoJD( --year, 1 )\<close> under the inner \<^verbatim>\<open>if\<close> changes both
  \<open>year\<close> and \<open>fwjd\<close>; the model binds the two new values.
\<close>

definition YMDtoYWd :: "int \<Rightarrow> jsval \<Rightarrow> jsval \<Rightarrow> int \<times> int \<times> int" where
  "YMDtoYWd year month day =
    (let tjd = YMDtoJD year month day;
         fwjd = YWDoWtoJD year 1 Undefined;
         fwnyjd = YWDoWtoJD (year + 1) 1 Undefined
     in if tjd \<ge> fwnyjd then (year + 1, 1, 1 + js_rem (tjd - fwnyjd) 7)
        else (let year' = (if tjd < fwjd then year - 1 else year);
                  fwjd' = (if tjd < fwjd then YWDoWtoJD (year - 1) 1 Undefined else fwjd)
              in (year', ToInt32 (1 + jsdiv (tjd - fwjd') 7), 1 + js_rem (tjd - fwjd') 7)))"

section \<open>Strings\<close>

text \<open>
  Number-to-string conversion of an integer, as string concatenation performs
  it: decimal digits, most significant first, with a leading minus sign for a
  negative number. (JavaScript switches to exponent notation from \<open>10 ^ 21\<close>
  on, far outside the range where the integer model applies.)
\<close>

definition digit_char :: "nat \<Rightarrow> char" where
  "digit_char n = ''0123456789'' ! n"

fun digits :: "nat \<Rightarrow> string" where
  "digits n = (if n < 10 then [digit_char n] else digits (n div 10) @ [digit_char (n mod 10)])"

definition toString :: "int \<Rightarrow> string" where
  "toString n = (if n < 0 then CHR ''-'' # digits (nat (- n)) else digits (nat n))"

text \<open>\<^verbatim>\<open>pad_\<close> (source lines 99-101).\<close>

definition pad :: "int \<Rightarrow> string" where
  "pad n = (if n < 10 then ''0'' @ toString n else toString n)"

text \<open>
  String-to-number conversion (\<^verbatim>\<open>Number(s)\<close>, unary \<^verbatim>\<open>+s\<close>), on the part of
  the numeric-string grammar that the documented date and time formats use: the
  empty string is 0, an optionally signed run of decimal digits is that
  integer. Every other string is \<^verbatim>\<open>NaN\<close> here; that is what JavaScript
  returns for text that is not numeric, while literals with white space, a
  fraction, an exponent or a radix prefix are outside the model.
\<close>

definition is_digit :: "char \<Rightarrow> bool" where
  "is_digit c = (c \<in> set ''0123456789'')"

definition digit_val :: "char \<Rightarrow> nat" where
  "digit_val c = of_char c - of_char CHR ''0''"

definition is_digits :: "string \<Rightarrow> bool" where
  "is_digits s = (s \<noteq> [] \<and> list_all is_digit s)"

definition dec :: "string \<Rightarrow> nat" where
  "dec s = foldl (\<lambda>acc c. 10 * acc + digit_val c) 0 s"

definition Number :: "string \<Rightarrow> jsval" where
  "Number s =
    (case s of
       [] \<Rightarrow> Num 0
     | c # cs \<Rightarrow>
         if c = CHR ''-'' then (if is_digits cs then Num (- int (dec cs)) else NaN)
         else if c = CHR ''+'' then (if is_digits cs then Num (int (dec cs)) else NaN)
         else if is_digits s then Num (int (dec s)) else NaN)"

text \<open>
  \<^verbatim>\<open>s.split(sep)\<close> for a one-character separator: the pieces between the
  separators, in order; a string without the separator is the only piece.
\<close>

fun split_on :: "char \<Rightarrow> string \<Rightarrow> string list" where
  "split_on sep [] = [[]]"
| "split_on sep (c # cs) =
    (if c = sep then [] # split_on sep cs
     else (case split_on sep cs of [] \<Rightarrow> [[c]] | x # xs \<Rightarrow> (c # x) # xs))"

text \<open>
  Reading an array element or a parameter that may be missing: an index past
  the end yields \<^verbatim>\<open>undefined\<close>.
\<close>

definition element :: "'a list \<Rightarrow> nat \<Rightarrow> 'a option" where
  "element xs i = (if i < length xs then Some (xs ! i) else None)"

definition arg :: "jsval list \<Rightarrow> nat \<Rightarrow> jsval" where
  "arg args i = (case element args i of None \<Rightarrow> Undefined | Some v \<Rightarrow> v)"

text \<open>Unary plus on an array element of strings: \<^verbatim>\<open>+undefined\<close> is \<^verbatim>\<open>NaN\<close>.\<close>

definition unary_plus :: "string option \<Rightarrow> jsval" where
  "unary_plus t = (case t of None \<Rightarrow> NaN | Some s \<Rightarrow> Number s)"

section \<open>Formatting and parsing\<close>

text \<open>\<^verbatim>\<open>YDMtoISO_YW\<close> (source lines 313-316).\<close>

definition YDMtoISO_YW :: "int \<Rightarrow> jsval \<Rightarrow> jsval \<Rightarrow> string" where
  "YDMtoISO_YW year month day =
    (case YMDtoYWd year month day of
       (y, w, d) \<Rightarrow> toString y @ ''-W'' @ (if w < 10 then ''0'' @ toString w else toString w))"

text \<open>
  Calls whose year (or week, or hours) argument comes out of string parsing may
  receive \<^verbatim>\<open>NaN\<close> there. The arithmetic of \<^verbatim>\<open>YMDtoJD\<close>, \<^verbatim>\<open>YWDoWtoJD\<close>
  and \<^verbatim>\<open>HMStoSeconds\<close> adds that argument into its result without any
  defaulting, so the result is \<^verbatim>\<open>NaN\<close>; the three wrappers below say so.
  \<open>YMDtoJD_apply\<close> and \<open>HMStoSeconds_apply\<close> are the calls through
  \<^verbatim>\<open>.apply( null, array )\<close>, where a missing array element is a missing
  parameter.
\<close>

definition YWDoWtoJD_js :: "jsval \<Rightarrow> jsval \<Rightarrow> jsval \<Rightarrow> jsval" where
  "YWDoWtoJD_js year week dow =
    (case year of
       Num y \<Rightarrow> (case week of Num w \<Rightarrow> Num (YWDoWtoJD y w dow) | _ \<Rightarrow> NaN)
     | _ \<Rightarrow> NaN)"

definition YMDtoJD_apply :: "jsval list \<Rightarrow> jsval" where
  "YMDtoJD_apply args =
    (case arg args 0 of Num y \<Rightarrow> Num (YMDtoJD y (arg args 1) (arg args 2)) | _ \<Rightarrow> NaN)"

text \<open>
  \<^verbatim>\<open>ISOtoJD\<close> (source lines 177-191). In the week branch
  \<^verbatim>\<open>ywd[ 1 ].substr( 1 )\<close> is a method call on \<^verbatim>\<open>undefined\<close> when the text
  has no hyphen, which throws a TypeError.
\<close>

datatype error = TypeError

definition ISOtoJD :: "string \<Rightarrow> error + jsval" where
  "ISOtoJD ISODate =
    (if CHR ''W'' \<in> set ISODate then
       (let ywd = split_on CHR ''-'' ISODate
        in case element ywd 1 of
             None \<Rightarrow> Inl TypeError
           | Some w \<Rightarrow>
               Inr (YWDoWtoJD_js (unary_plus (element ywd 0)) (Number (drop 1 w))
                      (unary_plus (element ywd 2))))
     else
       (let date = hd (split_on CHR ''T'' ISODate)
        in Inr (YMDtoJD_apply (map Number (split_on CHR ''-'' date)))))"

section \<open>Time of day\<close>

text \<open>\<^verbatim>\<open>HMStoSeconds\<close> (source lines 408-410).\<close>

definition HMStoSeconds :: "int \<Rightarrow> jsval \<Rightarrow> jsval \<Rightarrow> int" where
  "HMStoSeconds hours minutes seconds =
    hours * 3600 + or_default minutes 0 * 60 + or_default seconds 0"

definition HMStoSeconds_apply :: "jsval list \<Rightarrow> jsval" where
  "HMStoSeconds_apply args =
    (case arg args 0 of Num h \<Rightarrow> Num (HMStoSeconds h (arg args 1) (arg args 2)) | _ \<Rightarrow> NaN)"

text \<open>\<^verbatim>\<open>ISO_HMStoSeconds\<close> (source lines 428-430).\<close>

definition ISO_HMStoSeconds :: "string \<Rightarrow> jsval" where
  "ISO_HMStoSeconds HHMMSS = HMStoSeconds_apply (map Number (split_on CHR '':'' HHMMSS))"

text \<open>
  \<^verbatim>\<open>ISO_HMStoPercents\<close> (source lines 438-440). The result is a quotient,
  \<open>None\<close> standing for \<^verbatim>\<open>NaN\<close>.
\<close>

definition ISO_HMStoPercents :: "string \<Rightarrow> rat option" where
  "ISO_HMStoPercents HHMMSS =
    (case HMStoSeconds_apply (map Number (split_on CHR '':'' HHMMSS)) of
       Num s \<Rightarrow> Some (jsdiv (s * 100) 86399)
     | _ \<Rightarrow> None)"

section \<open>Absolute months\<close>

text \<open>\<^verbatim>\<open>ISOtoADMonth\<close> (source lines 458-461).\<close>

definition ISOtoADMonth :: "string \<Rightarrow> jsval" where
  "ISOtoADMonth YM =
    (let s = map Number (split_on CHR ''-'' YM)
     in case arg s 0 of Num y \<Rightarrow> Num (y * 12 + or_default (arg s 1) 1 - 1) | _ \<Rightarrow> NaN)"

text \<open>\<^verbatim>\<open>ADMonthToISO_YM\<close> (source lines 474-476).\<close>

definition ADMonthToISO_YM :: "int \<Rightarrow> string" where
  "ADMonthToISO_YM adMonth =
    toString (ToInt32 (jsdiv adMonth 12)) @ ''-'' @ pad (js_rem adMonth 12 + 1)"

text \<open>\<^verbatim>\<open>ADMonthToJD\<close> (source lines 489-491).\<close>

definition ADMonthToJD :: "int \<Rightarrow> int" where
  "ADMonthToJD adMonth =
    YMDtoJD (ToInt32 (jsdiv adMonth 12)) (Num (js_rem adMonth 12 + 1)) (Num 1)"

section \<open>Gregorian calendar rules\<close>

text \<open>
  The reference notions that the properties are stated against: the Gregorian
  leap-year rule, the length of a month, and what a valid civil date is.
\<close>

definition leap_year :: "int \<Rightarrow> bool" where
  "leap_year y = ((y mod 4 = 0 \<and> y mod 100 \<noteq> 0) \<or> y mod 400 = 0)"

definition days_in_month :: "int \<Rightarrow> int \<Rightarrow> int" where
  "days_in_month y m =
    (if m = 2 then (if leap_year y then 29 else 28)
     else if m = 4 \<or> m = 6 \<or> m = 9 \<or> m = 11 then 30 else 31)"

definition valid_date :: "int \<Rightarrow> int \<Rightarrow> int \<Rightarrow> bool" where
  "valid_date y m d = (1 \<le> m \<and> m \<le> 12 \<and> 1 \<le> d \<and> d \<le> days_in_month y m)"

text \<open>
  The length of the months in the order in which \<open>civil_of_day\<close> counts them,
  from March (0) to February (11), February taken with 29 days. Used in the
  proofs only.
\<close>

definition march_len :: "int \<Rightarrow> int" where
  "march_len m = (if m = 11 then 29 else if m = 1 \<or> m = 3 \<or> m = 6 \<or> m = 8 then 30 else 31)"

text \<open>
  The two day-number formulas over the integers, without rounding.
  \<open>civil_of_day\<close> and \<open>day_of_civil\<close> are what \<^verbatim>\<open>JDtoYMD\<close> and
  \<^verbatim>\<open>YMDtoJD\<close> compute while their operations are exact; they serve to state
  and prove the properties of the proleptic Gregorian calendar.
\<close>

definition civil_of_day :: "int \<Rightarrow> int \<times> int \<times> int" where
  "civil_of_day jd =
    (let a = jd + 32044;
         b = (4 * a + 3) div 146097;
         c = a - (146097 * b) div 4;
         d = (4 * c + 3) div 1461;
         e = c - (1461 * d) div 4;
         m = (5 * e + 2) div 153
     in (100 * b + d - 4800 + m div 10, m + 3 - 12 * (m div 10), e - (153 * m + 2) div 5 + 1))"

definition day_of_civil :: "int \<Rightarrow> int \<Rightarrow> int \<Rightarrow> int" where
  "day_of_civil y mo dy =
    (let a = (14 - mo) div 12;
         y' = y + 4800 - a;
         m = mo + 12 * a - 3
     in dy + (153 * m + 2) div 5 + 365 * y' + y' div 4 - y' div 100 + y' div 400 - 32045)"

text \<open>
  The Monday of ISO week \<open>w\<close> of the week-numbering year \<open>y\<close>, after ISO 8601:
  week 1 is the week that contains January 4, weeks start on Monday, and week
  \<open>w\<close> starts \<open>7 * (w - 1)\<close> days later. A Julian Day is a Monday when it is
  divisible by 7.
\<close>

definition iso_week_monday :: "int \<Rightarrow> int \<Rightarrow> int" where
  "iso_week_monday y w =
    (let j4 = day_of_civil y 1 4 in j4 - j4 mod 7 + 7 * (w - 1))"

section \<open>The calendar-date object\<close>





section \<open>Properties of the operators\<close>

lemma trunc_jsdiv:
  assumes "0 < b"
  shows "trunc (jsdiv a b) = (if 0 \<le> a then a div b else - ((- a) div b))"
proof (cases "0 \<le> a")
  case True
  then have "0 \<le> jsdiv a b" using assms by (simp add: jsdiv_def)
  then show ?thesis using True by (simp add: trunc_def jsdiv_def floor_divide_of_int_eq)
next
  case False
  then have neg: "\<not> 0 \<le> jsdiv a b" using assms by (simp add: jsdiv_def zero_le_divide_iff)
  have "\<lceil>jsdiv a b\<rceil> = - \<lfloor>of_int (- a) / (of_int b :: rat)\<rfloor>"
    by (simp add: ceiling_def jsdiv_def)
  also have "\<dots> = - ((- a) div b)" by (simp only: floor_divide_of_int_eq)
  finally show ?thesis using False neg by (simp add: trunc_def)
qed

lemma ToInt32_jsdiv_nonneg:
  assumes "0 \<le> a" "0 < b" "a div b < 2147483648"
  shows "ToInt32 (jsdiv a b) = a div b"
proof -
  have "0 \<le> a div b" using assms by (simp add: pos_imp_zdiv_nonneg_iff)
  then show ?thesis using assms by (simp add: ToInt32_def trunc_jsdiv)
qed

lemma js_rem_nonneg: "0 \<le> a \<Longrightarrow> 0 < b \<Longrightarrow> js_rem a b = a mod b"
  by (cases "a = 0") (simp_all add: js_rem_def)

section \<open>Properties of the rounding\<close>

text \<open>
  An integer below \<open>2 ^ 53\<close> in magnitude is a double, the rounding error is at
  most the fraction \<open>2 ^ - 53\<close> of the value, and so the floor of the rounded
  quotient of such an integer by a positive integer is the integer quotient.
\<close>

lemma bits_lower: "0 < n \<Longrightarrow> 2 ^ bits n \<le> 2 * n"
proof (induction n rule: bits.induct)
  case (1 n)
  show ?case
  proof (cases "n = 1")
    case True
    then show ?thesis by (subst bits.simps) (simp add: bits.simps[of 0])
  next
    case False
    with 1(2) have pos: "0 < n div 2" by simp
    have "2 ^ bits (n div 2) \<le> 2 * (n div 2)" using 1(1) 1(2) pos by simp
    moreover have "2 * (n div 2) \<le> n" by simp
    ultimately have "2 * 2 ^ bits (n div 2) \<le> 2 * n" by linarith
    then show ?thesis using 1(2) by (subst bits.simps) simp
  qed
qed

lemma bits_upper: "0 \<le> n \<Longrightarrow> n < 2 ^ bits n"
proof (induction n rule: bits.induct)
  case (1 n)
  show ?case
  proof (cases "n = 0")
    case True
    then show ?thesis by (subst bits.simps) simp
  next
    case False
    with 1(2) have pos: "0 < n" by simp
    then have "n div 2 < 2 ^ bits (n div 2)" using 1(1) by simp
    then have "n div 2 + 1 \<le> 2 ^ bits (n div 2)" by simp
    moreover have "n < 2 * (n div 2 + 1)" by simp
    ultimately have "n < 2 * 2 ^ bits (n div 2)" by linarith
    then show ?thesis using pos by (subst bits.simps) simp
  qed
qed

lemma pow2_pos: "0 < pow2 k"
  by (simp add: pow2_def)

lemma pow2_int: "pow2 (int n) = 2 ^ n"
  by (simp add: pow2_def)

lemma pow2_add: "pow2 (j + k) = pow2 j * pow2 k"
proof -
  have "pow2 k = 2 powi k" for k
    by (cases "0 \<le> k") (simp_all add: pow2_def power_int_def field_simps)
  then show ?thesis by (simp add: power_int_add)
qed

lemma ilog2_lower:
  assumes "q \<noteq> 0"
  shows "pow2 (ilog2 q) \<le> \<bar>q\<bar>"
proof (cases "1 \<le> \<bar>q\<bar>")
  case True
  define n where "n = \<lfloor>\<bar>q\<bar>\<rfloor>"
  have n: "0 < n" using True by (simp add: n_def)
  then obtain j where j: "bits n = Suc j" by (subst (asm) bits.simps) (cases "bits n"; simp add: bits.simps[of n])
  have "2 ^ bits n \<le> 2 * n" by (rule bits_lower[OF n])
  then have "(2::int) ^ j \<le> n" using j by simp
  then have "of_int (2 ^ j) \<le> (of_int n :: rat)" by (simp only: of_int_le_iff)
  also have "\<dots> \<le> \<bar>q\<bar>" by (simp add: n_def)
  finally have "2 ^ j \<le> \<bar>q\<bar>" by simp
  moreover have "ilog2 q = int j" using True j by (simp add: ilog2_def n_def)
  ultimately show ?thesis by (simp add: pow2_int)
next
  case False
  define r where "r = 1 / \<bar>q\<bar>"
  define k where "k = bits (\<lceil>r\<rceil> - 1)"
  have q: "0 < \<bar>q\<bar>" using assms by simp
  have r: "1 < r" using False q by (simp add: r_def)
  then have "0 \<le> \<lceil>r\<rceil> - 1" by simp
  then have "\<lceil>r\<rceil> - 1 < 2 ^ k" unfolding k_def by (rule bits_upper)
  then have "\<lceil>r\<rceil> \<le> 2 ^ k" by simp
  then have "r \<le> of_int (2 ^ k)" by (simp only: ceiling_le_iff)
  then have "1 / \<bar>q\<bar> \<le> 2 ^ k" by (simp add: r_def)
  then have "1 / 2 ^ k \<le> \<bar>q\<bar>" using q by (simp add: field_simps)
  moreover have "ilog2 q = - int k" using False by (simp add: ilog2_def k_def r_def)
  moreover have "pow2 (- int k) = 1 / 2 ^ k" by (cases "k = 0") (simp_all add: pow2_def)
  ultimately show ?thesis by simp
qed

lemma round_even_error: "\<bar>of_int (round_even x) - x\<bar> \<le> 1 / 2"
proof -
  define f where "f = \<lfloor>x\<rfloor>"
  have "of_int f \<le> x" "x < of_int f + 1" using floor_correct[of x] by (simp_all add: f_def)
  then show ?thesis unfolding round_even_def f_def[symmetric] Let_def
    by (auto simp: abs_le_iff)
qed

lemma round_even_of_int: "round_even (of_int n) = n"
  by (simp add: round_even_def)

lemma fl_error:
  assumes "q \<noteq> 0"
  shows "\<bar>fl q - q\<bar> * 2 ^ 53 \<le> \<bar>q\<bar>"
proof -
  define u where "u = pow2 (ilog2 q - 52)"
  have u: "0 < u" by (simp add: u_def pow2_pos)
  have "pow2 (ilog2 q) = pow2 (ilog2 q - 52) * pow2 52" by (simp flip: pow2_add)
  then have ue: "u * 2 ^ 52 \<le> \<bar>q\<bar>" using ilog2_lower[OF assms] pow2_int[of 52] by (simp add: u_def)
  have "fl q - q = u * (of_int (round_even (q / u)) - q / u)"
    using assms u by (simp add: fl_def u_def[symmetric] Let_def algebra_simps)
  then have "\<bar>fl q - q\<bar> = u * \<bar>of_int (round_even (q / u)) - q / u\<bar>"
    using u by (simp add: abs_mult)
  also have "\<dots> \<le> u * (1 / 2)" using u round_even_error by (intro mult_left_mono) simp_all
  finally have "\<bar>fl q - q\<bar> * 2 ^ 53 \<le> u * 2 ^ 52" by simp
  then show ?thesis using ue by linarith
qed

lemma fl_of_int:
  assumes "\<bar>n\<bar> < 9007199254740992"
  shows "fl (of_int n) = of_int n"
proof (cases "n = 0")
  case True
  then show ?thesis by (simp add: fl_def)
next
  case False
  then have n: "0 < \<bar>n\<bar>" by simp
  then obtain j where j: "bits \<bar>n\<bar> = Suc j" by (cases "bits \<bar>n\<bar>") (simp_all add: bits.simps[of "\<bar>n\<bar>"])
  have "2 ^ bits \<bar>n\<bar> \<le> 2 * \<bar>n\<bar>" by (rule bits_lower[OF n])
  then have lt: "(2::int) ^ j < 2 ^ 53" using j assms by simp
  have "j < 53" using power_less_imp_less_exp[OF _ lt] by simp
  then have j52: "j \<le> 52" by simp
  have "1 \<le> \<bar>of_int n :: rat\<bar>" using n by (simp flip: of_int_abs)
  then have e: "ilog2 (of_int n) = int j" using j by (simp add: ilog2_def flip: of_int_abs)
  define i where "i = 52 - j"
  have u: "pow2 (ilog2 (of_int n) - 52) = 1 / 2 ^ i"
    using j52 by (cases "j = 52") (simp_all add: e pow2_def i_def nat_diff_distrib)
  have "of_int n / (1 / 2 ^ i) = (of_int (n * 2 ^ i) :: rat)" by simp
  then have "round_even (of_int n / (1 / 2 ^ i)) = n * 2 ^ i" by (simp only: round_even_of_int)
  then show ?thesis using False by (simp add: fl_def u Let_def)
qed

lemma rnd_exact: "\<bar>n\<bar> < 9007199254740992 \<Longrightarrow> rnd n = n"
  by (simp add: rnd_def fl_of_int)

lemma floor_jquot:
  assumes a: "\<bar>a\<bar> < 9007199254740992" and b: "0 < b"
  shows "Math_floor (jquot a b) = a div b"
proof (cases "b dvd a")
  case True
  then obtain k where k: "a = b * k" by (auto simp: dvd_def)
  have "1 * \<bar>k\<bar> \<le> b * \<bar>k\<bar>" using b by (intro mult_right_mono) simp_all
  then have "\<bar>k\<bar> \<le> \<bar>a\<bar>" using k b by (simp add: abs_mult)
  then have "fl (of_int k) = of_int k" using a by (intro fl_of_int) simp
  moreover have "(of_int a / of_int b :: rat) = of_int k" using k b by simp
  ultimately show ?thesis using k b by (simp add: Math_floor_def jquot_def)
next
  case False
  define q :: rat where "q = of_int a / of_int b"
  define k where "k = a div b"
  define r where "r = a mod b"
  have r: "0 < r" "r < b" using False b pos_mod_sign[of b a] pos_mod_bound[of b a]
    by (auto simp: r_def mod_eq_0_iff_dvd less_le)
  have ab: "a = b * k + r" by (simp add: k_def r_def)
  have a0: "a \<noteq> 0" using False by auto
  then have q0: "q \<noteq> 0" using b by (simp add: q_def)
  have bq: "of_int b * q = of_int a" using b by (simp add: q_def)
  have B: "0 < (of_int b :: rat)" using b by simp
  have lo: "of_int k + 1 / of_int b \<le> q"
  proof -
    have "of_int b * (of_int k + 1 / of_int b) = (of_int (b * k + 1) :: rat)" using b by (simp add: algebra_simps)
    also have "\<dots> \<le> of_int a" using r ab by (simp only: of_int_le_iff)
    finally have "of_int b * (of_int k + 1 / of_int b) \<le> of_int b * q" by (simp only: bq)
    then show ?thesis using B by (simp only: mult_le_cancel_left_pos)
  qed
  have hi: "q \<le> of_int k + 1 - 1 / of_int b"
  proof -
    have "of_int a \<le> (of_int (b * k + b - 1) :: rat)" using r ab by (simp only: of_int_le_iff)
    also have "\<dots> = of_int b * (of_int k + 1 - 1 / of_int b)" using b by (simp add: algebra_simps)
    finally have "of_int b * q \<le> of_int b * (of_int k + 1 - 1 / of_int b)" by (simp only: bq)
    then show ?thesis using B by (simp only: mult_le_cancel_left_pos)
  qed
  have "\<bar>q\<bar> = of_int \<bar>a\<bar> / of_int b" using b by (simp add: q_def)
  also have "\<dots> < 2 ^ 53 / of_int b"
  proof -
    have "(of_int \<bar>a\<bar> :: rat) < of_int 9007199254740992" using a by (simp only: of_int_less_iff)
    then show ?thesis using B by (simp add: divide_strict_right_mono)
  qed
  finally have "\<bar>fl q - q\<bar> * 2 ^ 53 < 2 ^ 53 / of_int b" using fl_error[OF q0] by linarith
  then have err: "\<bar>fl q - q\<bar> < 1 / of_int b" by simp
  have "of_int k < fl q" "fl q < of_int k + 1" using err lo hi by linarith+
  then have "\<lfloor>fl q\<rfloor> = k" by (simp add: floor_unique)
  then show ?thesis by (simp add: Math_floor_def jquot_def q_def k_def)
qed

lemma jadd_exact: "\<bar>a + b\<bar> < 9007199254740992 \<Longrightarrow> jadd a b = a + b"
  by (simp add: jadd_def rnd_exact)

lemma jsub_exact: "\<bar>a - b\<bar> < 9007199254740992 \<Longrightarrow> jsub a b = a - b"
  by (simp add: jsub_def rnd_exact)

lemma jmul_exact: "\<bar>a * b\<bar> < 9007199254740992 \<Longrightarrow> jmul a b = a * b"
  by (simp add: jmul_def rnd_exact)

section \<open>The day count within a year and a 400-year cycle\<close>

text \<open>
  \<open>civil_of_day\<close> peels a day number apart: \<open>b\<close> counts the centuries,
  \<open>c\<close> is the day within the century, \<open>d\<close> the year within the century,
  \<open>e\<close> the day within the year that starts on March 1, and \<open>m\<close> the
  month counted from March. The lemmas below bound each part and show that the
  parts determine the day number, and the other way round.
\<close>

lemma twelve_cases:
  fixes m :: int
  assumes "0 \<le> m" "m \<le> 11"
  obtains "m = 0" | "m = 1" | "m = 2" | "m = 3" | "m = 4" | "m = 5" | "m = 6"
    | "m = 7" | "m = 8" | "m = 9" | "m = 10" | "m = 11"
  using assms by atomize_elim presburger

lemma month_of_e:
  fixes e :: int
  assumes "0 \<le> e" "e \<le> 365"
  defines "m \<equiv> (5 * e + 2) div 153"
  shows "0 \<le> m" "m \<le> 11"
  using assms(1,2) unfolding m_def by arith+

lemma day_of_e:
  fixes e :: int
  assumes e: "0 \<le> e" "e \<le> 365"
  defines "m \<equiv> (5 * e + 2) div 153"
  defines "day \<equiv> e - (153 * m + 2) div 5 + 1"
  shows "1 \<le> day" "day \<le> march_len m" "m = 11 \<Longrightarrow> day = 29 \<Longrightarrow> e = 365"
proof -
  have m: "0 \<le> m" "m \<le> 11" using e unfolding m_def by arith+
  have lo: "153 * m \<le> 5 * e + 2" unfolding m_def by (simp add: mult.commute[of 153])
  have hi: "5 * e + 2 < 153 * m + 153" unfolding m_def
    using pos_mod_bound[of 153 "5 * e + 2"] by (simp add: mod_div_decomp)
  from m have "1 \<le> day \<and> day \<le> march_len m \<and> (m = 11 \<longrightarrow> day = 29 \<longrightarrow> e = 365)"
    using lo hi e by (cases rule: twelve_cases) (simp_all add: day_def march_len_def)
  then show "1 \<le> day" "day \<le> march_len m" "m = 11 \<Longrightarrow> day = 29 \<Longrightarrow> e = 365" by simp_all
qed

lemma e_of_day:
  fixes m dy :: int
  assumes m: "0 \<le> m" "m \<le> 11" and dy: "1 \<le> dy" "dy \<le> march_len m"
  defines "e \<equiv> dy - 1 + (153 * m + 2) div 5"
  shows "(5 * e + 2) div 153 = m" "0 \<le> e" "e \<le> 365" "e = 365 \<Longrightarrow> m = 11 \<and> dy = 29"
proof -
  from m have "(5 * e + 2) div 153 = m \<and> 0 \<le> e \<and> e \<le> 365 \<and> (e = 365 \<longrightarrow> m = 11 \<and> dy = 29)"
    using dy unfolding e_def march_len_def by (cases rule: twelve_cases) simp_all
  then show "(5 * e + 2) div 153 = m" "0 \<le> e" "e \<le> 365" "e = 365 \<Longrightarrow> m = 11 \<and> dy = 29"
    by simp_all
qed

lemma century_split:
  fixes b :: int
  shows "(146097 * b) div 4 = 36524 * b + b div 4"
proof -
  have "146097 * b = b + 4 * (36524 * b)" by simp
  then have "(146097 * b) div 4 = (b + 4 * (36524 * b)) div 4" by simp
  also have "\<dots> = b div 4 + 36524 * b" by simp
  finally show ?thesis by simp
qed

lemma year_split:
  fixes d :: int
  shows "(1461 * d) div 4 = 365 * d + d div 4"
proof -
  have "1461 * d = d + 4 * (365 * d)" by simp
  then have "(1461 * d) div 4 = (d + 4 * (365 * d)) div 4" by simp
  also have "\<dots> = d div 4 + 365 * d" by simp
  finally show ?thesis by simp
qed

lemma c_range:
  fixes a :: int
  assumes b_def: "b = (4 * a + 3) div 146097"
    and c_def: "c = a - (146097 * b) div 4"
  shows "0 \<le> c" "c \<le> 36524" "c = 36524 \<Longrightarrow> b mod 4 = 3"
proof -
  have lo: "146097 * b \<le> 4 * a + 3" unfolding b_def by (simp add: mult.commute[of 146097])
  have hi: "4 * a + 3 < 146097 * b + 146097" unfolding b_def
    using pos_mod_bound[of 146097 "4 * a + 3"] by (simp add: mod_div_decomp)
  define q where "q = b div 4"
  define s where "s = b mod 4"
  have b: "b = 4 * q + s" and s: "0 \<le> s" "s < 4" by (simp_all add: q_def s_def)
  have c: "c = a - 36524 * b - q" unfolding c_def century_split q_def by simp
  show "0 \<le> c" using lo hi c b s by linarith
  show "c \<le> 36524" using lo hi c b s by linarith
  show "c = 36524 \<Longrightarrow> b mod 4 = 3" using lo hi c b s unfolding s_def[symmetric] by linarith
qed

lemma d_range:
  fixes c :: int
  assumes c: "0 \<le> c" "c \<le> 36524"
    and d_def: "d = (4 * c + 3) div 1461"
    and e_def: "e = c - (1461 * d) div 4"
  shows "0 \<le> d" "d \<le> 99" "0 \<le> e" "e \<le> 365" "e = 365 \<Longrightarrow> d mod 4 = 3"
    "e = 365 \<Longrightarrow> d = 99 \<Longrightarrow> c = 36524"
proof -
  have lo: "1461 * d \<le> 4 * c + 3" unfolding d_def by (simp add: mult.commute[of 1461])
  have hi: "4 * c + 3 < 1461 * d + 1461" unfolding d_def
    using pos_mod_bound[of 1461 "4 * c + 3"] by (simp add: mod_div_decomp)
  define q where "q = d div 4"
  define s where "s = d mod 4"
  have d: "d = 4 * q + s" and s: "0 \<le> s" "s < 4" by (simp_all add: q_def s_def)
  have e: "e = c - 365 * d - q" unfolding e_def year_split q_def by simp
  show "0 \<le> d" using lo hi c by linarith
  show "d \<le> 99" using lo hi c by linarith
  show "0 \<le> e" using lo hi e d s by linarith
  show "e \<le> 365" using lo hi e d s by linarith
  show "e = 365 \<Longrightarrow> d mod 4 = 3" using lo hi e d s unfolding s_def[symmetric] by linarith
  show "e = 365 \<Longrightarrow> d = 99 \<Longrightarrow> c = 36524" using e unfolding q_def by simp
qed

lemma civil_of_day_decompose:
  obtains b d e m where
    "civil_of_day jd = (100 * b + d - 4800 + m div 10, m + 3 - 12 * (m div 10), e - (153 * m + 2) div 5 + 1)"
    "jd + 32044 = e + 365 * d + d div 4 + 36524 * b + b div 4"
    "0 \<le> d" "d \<le> 99" "0 \<le> e" "e \<le> 365" "m = (5 * e + 2) div 153"
    "e = 365 \<Longrightarrow> d mod 4 = 3" "e = 365 \<Longrightarrow> d = 99 \<Longrightarrow> b mod 4 = 3"
proof -
  define a where "a = jd + 32044"
  define b where "b = (4 * a + 3) div 146097"
  define c where "c = a - (146097 * b) div 4"
  define d where "d = (4 * c + 3) div 1461"
  define e where "e = c - (1461 * d) div 4"
  define m where "m = (5 * e + 2) div 153"
  note c = c_range[OF b_def c_def]
  note d = d_range[OF c(1,2) d_def e_def]
  have 1: "civil_of_day jd = (100 * b + d - 4800 + m div 10, m + 3 - 12 * (m div 10), e - (153 * m + 2) div 5 + 1)"
    by (simp only: civil_of_day_def Let_def a_def b_def c_def d_def e_def m_def)
  have 2: "jd + 32044 = e + 365 * d + d div 4 + 36524 * b + b div 4"
    using c_def e_def a_def by (simp add: century_split year_split)
  have 3: "e = 365 \<Longrightarrow> d = 99 \<Longrightarrow> b mod 4 = 3" using d(6) c(3) by blast
  show thesis using that[OF 1 2 d(1,2,3,4) m_def d(5) 3] by blast
qed

lemma day_of_civil_unfold:
  "day_of_civil y mo dy =
    dy + (153 * (mo + 12 * ((14 - mo) div 12) - 3) + 2) div 5
       + 365 * (y + 4800 - (14 - mo) div 12)
       + (y + 4800 - (14 - mo) div 12) div 4
       - (y + 4800 - (14 - mo) div 12) div 100
       + (y + 4800 - (14 - mo) div 12) div 400 - 32045"
  by (simp only: day_of_civil_def Let_def)

lemma hundred_split:
  fixes b d :: int
  assumes "0 \<le> d" "d \<le> 99"
  shows "(100 * b + d) div 100 = b" "(100 * b + d) div 400 = b div 4"
    "(100 * b + d) div 4 = 25 * b + d div 4"
proof -
  show 1: "(100 * b + d) div 100 = b"
    by (rule int_div_pos_eq[of _ _ _ d]) (use assms in simp_all)
  have "(100 * b + d) div (100 * 4) = ((100 * b + d) div 100) div 4"
    by (rule zdiv_zmult2_eq) simp
  then show "(100 * b + d) div 400 = b div 4" using 1 by simp
  have "100 * b + d = d + 4 * (25 * b)" by simp
  then have "(100 * b + d) div 4 = (d + 4 * (25 * b)) div 4" by simp
  then show "(100 * b + d) div 4 = 25 * b + d div 4" by simp
qed

lemma march_month:
  fixes m :: int
  assumes "0 \<le> m" "m \<le> 11"
  shows "m + 3 - 12 * (m div 10) \<noteq> 0"
    "1 \<le> m + 3 - 12 * (m div 10)" "m + 3 - 12 * (m div 10) \<le> 12"
    "(14 - (m + 3 - 12 * (m div 10))) div 12 = m div 10"
  using assms by (cases rule: twelve_cases; simp)+

lemma civil_day_roundtrip:
  assumes "civil_of_day jd = (y, mo, dy)"
  shows "day_of_civil y mo dy = jd"
proof -
  obtain b d e m where
    ymd: "civil_of_day jd = (100 * b + d - 4800 + m div 10, m + 3 - 12 * (m div 10), e - (153 * m + 2) div 5 + 1)"
    and a: "jd + 32044 = e + 365 * d + d div 4 + 36524 * b + b div 4"
    and d: "0 \<le> d" "d \<le> 99" and e: "0 \<le> e" "e \<le> 365" and m_def: "m = (5 * e + 2) div 153"
    and leap: "e = 365 \<Longrightarrow> d mod 4 = 3" "e = 365 \<Longrightarrow> d = 99 \<Longrightarrow> b mod 4 = 3"
    by (rule civil_of_day_decompose[of jd]) blast
  have m: "0 \<le> m" "m \<le> 11" using month_of_e[OF e] by (simp_all add: m_def)
  have dy1: "1 \<le> dy" using day_of_e(1)[OF e] ymd assms by (simp add: m_def)
  have y: "y = 100 * b + d - 4800 + m div 10" and mo: "mo = m + 3 - 12 * (m div 10)"
    and dy: "dy = e - (153 * m + 2) div 5 + 1" using ymd assms by simp_all
  note mm = march_month[OF m, folded mo]
  have y': "y + 4800 - (14 - mo) div 12 = 100 * b + d" using mm(4) y by simp
  have m': "mo + 12 * ((14 - mo) div 12) - 3 = m" using mm(4) mo by simp
  have "day_of_civil y mo dy =
      dy + (153 * m + 2) div 5 + 365 * (100 * b + d) + (100 * b + d) div 4
      - (100 * b + d) div 100 + (100 * b + d) div 400 - 32045"
    using day_of_civil_unfold[of y mo dy] by (simp only: y' m')
  also have "\<dots> = jd" using a dy by (simp add: hundred_split[OF d])
  finally show ?thesis .
qed

lemma leap_from_cycle:
  fixes b d :: int
  assumes d: "0 \<le> d" "d \<le> 99" and d4: "d mod 4 = 3" and b4: "d = 99 \<Longrightarrow> b mod 4 = 3"
  shows "leap_year (100 * b + d - 4799)"
proof -
  have "d = 4 * (d div 4) + 3" using d4 mult_div_mod_eq[of 4 d] by simp
  then have "100 * b + d - 4799 = 4 * (25 * b + d div 4 - 1199)" by simp
  then have y4: "(100 * b + d - 4799) mod 4 = 0" by (simp only: mod_mult_self1_is_0)
  show ?thesis
  proof (cases "d = 99")
    case True
    then have "b = 4 * (b div 4) + 3" using b4 mult_div_mod_eq[of 4 b] by simp
    then have "100 * b + d - 4799 = 400 * (b div 4 - 11)" using True by simp
    then have "(100 * b + d - 4799) mod 400 = 0" by (simp only: mod_mult_self1_is_0)
    then show ?thesis by (simp add: leap_year_def)
  next
    case False
    have "100 * b + d - 4799 = 100 * (b - 48) + (d + 1)" by simp
    moreover have "0 \<le> d + 1" "d + 1 < 100" using d False by simp_all
    ultimately have "(100 * b + d - 4799) mod 100 = d + 1"
      by (intro int_mod_pos_eq[of _ _ "b - 48"]) simp_all
    then show ?thesis using y4 d by (simp add: leap_year_def)
  qed
qed

lemma civil_of_day_valid:
  assumes "civil_of_day jd = (y, mo, dy)"
  shows "valid_date y mo dy"
proof -
  obtain b d e m where
    ymd: "civil_of_day jd = (100 * b + d - 4800 + m div 10, m + 3 - 12 * (m div 10), e - (153 * m + 2) div 5 + 1)"
    and a: "jd + 32044 = e + 365 * d + d div 4 + 36524 * b + b div 4"
    and d: "0 \<le> d" "d \<le> 99" and e: "0 \<le> e" "e \<le> 365" and m_def: "m = (5 * e + 2) div 153"
    and leap: "e = 365 \<Longrightarrow> d mod 4 = 3" "e = 365 \<Longrightarrow> d = 99 \<Longrightarrow> b mod 4 = 3"
    by (rule civil_of_day_decompose[of jd]) blast
  have m: "0 \<le> m" "m \<le> 11" using month_of_e[OF e] by (simp_all add: m_def)
  have y: "y = 100 * b + d - 4800 + m div 10" and mo: "mo = m + 3 - 12 * (m div 10)"
    and dy: "dy = e - (153 * m + 2) div 5 + 1" using ymd assms by simp_all
  note day = day_of_e[OF e, folded m_def, folded dy]
  note mm = march_month[OF m, folded mo]
  have "dy \<le> days_in_month y mo"
  proof (cases "m = 11")
    case True
    then have mo2: "mo = 2" and y2: "y = 100 * b + d - 4799" using mo y by simp_all
    show ?thesis
    proof (cases "dy = 29")
      case True
      then have "e = 365" using day(3) \<open>m = 11\<close> by simp
      then have "leap_year y" unfolding y2 using leap_from_cycle[OF d] leap by simp
      then show ?thesis using True mo2 by (simp add: days_in_month_def)
    next
      case False
      then have "dy \<le> 28" using day(2) \<open>m = 11\<close> by (simp add: march_len_def)
      then show ?thesis using mo2 by (simp add: days_in_month_def)
    qed
  next
    case False
    with m day(2) show ?thesis unfolding mo
      by (cases rule: twelve_cases) (simp_all add: march_len_def days_in_month_def)
  qed
  then show ?thesis using mm(2,3) day(1) by (simp add: valid_date_def)
qed

lemma civil_of_day_eqI:
  assumes "b = (4 * (jd + 32044) + 3) div 146097"
    and "c = jd + 32044 - (146097 * b) div 4"
    and "d = (4 * c + 3) div 1461"
    and "e = c - (1461 * d) div 4"
    and "m = (5 * e + 2) div 153"
  shows "civil_of_day jd =
    (100 * b + d - 4800 + m div 10, m + 3 - 12 * (m div 10), e - (153 * m + 2) div 5 + 1)"
  by (simp only: assms civil_of_day_def Let_def)

lemma cycle_unique:
  fixes B D e0 a :: int
  assumes D: "0 \<le> D" "D \<le> 99" and e: "0 \<le> e0" "e0 \<le> 365"
    and l4: "e0 = 365 \<Longrightarrow> D mod 4 = 3"
    and l400: "e0 = 365 \<Longrightarrow> D = 99 \<Longrightarrow> B mod 4 = 3"
    and a: "a = e0 + 365 * D + D div 4 + 36524 * B + B div 4"
  shows "(4 * a + 3) div 146097 = B"
    and "a - (146097 * B) div 4 = e0 + 365 * D + D div 4"
    and "(4 * (e0 + 365 * D + D div 4) + 3) div 1461 = D"
    and "e0 + 365 * D + D div 4 - (1461 * D) div 4 = e0"
proof -
  define q where "q = B div 4"
  define s where "s = B mod 4"
  define qd where "qd = D div 4"
  define sd where "sd = D mod 4"
  have B: "B = 4 * q + s" and s: "0 \<le> s" "s < 4" by (simp_all add: q_def s_def)
  have Dd: "D = 4 * qd + sd" and sd: "0 \<le> sd" "sd < 4" by (simp_all add: qd_def sd_def)
  define c0 where "c0 = e0 + 365 * D + qd"
  have sd3: "e0 = 365 \<Longrightarrow> sd = 3" using l4 by (simp add: sd_def)
  have s3: "e0 = 365 \<Longrightarrow> D = 99 \<Longrightarrow> s = 3" using l400 by (simp add: s_def)
  have r1: "0 \<le> 4 * e0 + 3 - sd" using e sd by linarith
  have r2: "4 * e0 + 3 - sd < 1461"
  proof (cases "e0 = 365")
    case True then show ?thesis using sd3 by simp
  next
    case False then show ?thesis using e sd by linarith
  qed
  have "4 * c0 + 3 = 1461 * D + (4 * e0 + 3 - sd)" unfolding c0_def using Dd by presburger
  from int_div_pos_eq[OF this r1 r2]
  show "(4 * (e0 + 365 * D + D div 4) + 3) div 1461 = D" by (simp add: c0_def qd_def)
  have c0: "0 \<le> c0" "c0 \<le> 36524" unfolding c0_def using e D Dd sd by linarith+
  have t1: "0 \<le> 4 * c0 + 3 - s" using c0 s by linarith
  have t2: "4 * c0 + 3 - s < 146097"
  proof (cases "e0 = 365 \<and> D = 99")
    case True then show ?thesis using s3 c0 by simp
  next
    case False
    then have "c0 \<le> 36523" unfolding c0_def using e D Dd sd by linarith
    then show ?thesis using s by linarith
  qed
  have "4 * a + 3 = 146097 * B + (4 * c0 + 3 - s)" unfolding c0_def a qd_def[symmetric] q_def[symmetric]
    using B by presburger
  from int_div_pos_eq[OF this t1 t2]
  show "(4 * a + 3) div 146097 = B" .
  show "a - (146097 * B) div 4 = e0 + 365 * D + D div 4" unfolding a century_split by simp
  show "e0 + 365 * D + D div 4 - (1461 * D) div 4 = e0" unfolding year_split by simp
qed

lemma month_cases:
  fixes mo :: int
  assumes "1 \<le> mo" "mo \<le> 12"
  obtains "mo = 1" | "mo = 2" | "mo = 3" | "mo = 4" | "mo = 5" | "mo = 6" | "mo = 7"
    | "mo = 8" | "mo = 9" | "mo = 10" | "mo = 11" | "mo = 12"
proof -
  have "0 \<le> mo - 1" "mo - 1 \<le> 11" using assms by simp_all
  then show thesis by (cases rule: twelve_cases) (use that in simp_all)
qed

lemma leap_to_cycle:
  fixes B D :: int
  assumes leap: "leap_year (100 * B + D - 4799)" and D: "0 \<le> D" "D \<le> 99"
  shows "D mod 4 = 3" and "D = 99 \<Longrightarrow> B mod 4 = 3"
proof -
  have "(4::int) dvd 400" by simp
  then have "(100 * B + D - 4799) mod 400 = 0 \<Longrightarrow> 4 dvd (100 * B + D - 4799)"
    using dvd_trans mod_eq_0_iff_dvd by blast
  then have "4 dvd (100 * B + D - 4799)" using leap unfolding leap_year_def by auto
  then show "D mod 4 = 3" by presburger
  show "B mod 4 = 3" if "D = 99"
  proof -
    have eq: "100 * B + D - 4799 = 100 * (B - 47)" using that by simp
    then have "(100 * (B - 47)) mod 100 = 0" by simp
    then have "(100 * (B - 47)) mod 400 = 0" using leap unfolding leap_year_def eq by simp
    then have "100 * 4 dvd 100 * (B - 47)" by (simp add: mod_eq_0_iff_dvd)
    then have "4 dvd (B - 47)" by (simp only: dvd_mult_cancel_left) simp
    then show ?thesis by presburger
  qed
qed

lemma day_civil_roundtrip:
  assumes "valid_date y mo dy"
  shows "civil_of_day (day_of_civil y mo dy) = (y, mo, dy)"
proof -
  from assms have mo: "1 \<le> mo" "mo \<le> 12" and dy: "1 \<le> dy" "dy \<le> days_in_month y mo"
    by (simp_all add: valid_date_def)
  define aa where "aa = (14 - mo) div 12"
  define m where "m = mo + 12 * aa - 3"
  define y' where "y' = y + 4800 - aa"
  define B where "B = y' div 100"
  define D where "D = y' mod 100"
  define e0 where "e0 = dy - 1 + (153 * m + 2) div 5"
  from mo have mfacts: "0 \<le> m \<and> m \<le> 11 \<and> m div 10 = aa \<and> m + 3 - 12 * (m div 10) = mo
      \<and> (m = 11 \<longrightarrow> mo = 2) \<and> march_len m = (if mo = 2 then 29 else days_in_month y mo)"
    unfolding m_def aa_def by (cases rule: month_cases) (simp_all add: march_len_def days_in_month_def)
  then have m: "0 \<le> m" "m \<le> 11" and m10: "m div 10 = aa" and mback: "m + 3 - 12 * (m div 10) = mo"
    and m11: "m = 11 \<Longrightarrow> mo = 2" by simp_all
  have dylen: "dy \<le> march_len m" using mfacts dy(2) by (simp add: days_in_month_def split: if_splits)
  note ed = e_of_day[OF m dy(1) dylen, folded e0_def]
  have y'_eq: "y' = 100 * B + D" and D: "0 \<le> D" "D \<le> 99" by (simp_all add: B_def D_def)
  have feb29: "leap_year (100 * B + D - 4799)" if "e0 = 365"
  proof -
    from ed(4)[OF that] have "m = 11" "dy = 29" by simp_all
    then have "mo = 2" using m11 by simp
    then have "leap_year y" using dy(2) \<open>dy = 29\<close> by (simp add: days_in_month_def split: if_splits)
    moreover have "aa = 1" using \<open>mo = 2\<close> by (simp add: aa_def)
    then have "100 * B + D - 4799 = y" using y'_eq y'_def by linarith
    ultimately show ?thesis by simp
  qed
  have l4: "e0 = 365 \<Longrightarrow> D mod 4 = 3" using leap_to_cycle(1)[OF feb29 D] .
  have l400: "e0 = 365 \<Longrightarrow> D = 99 \<Longrightarrow> B mod 4 = 3" using leap_to_cycle(2)[OF feb29 D] .
  define jd where "jd = day_of_civil y mo dy"
  have "jd = dy + (153 * m + 2) div 5 + 365 * y' + y' div 4 - y' div 100 + y' div 400 - 32045"
    unfolding jd_def m_def y'_def aa_def using day_of_civil_unfold[of y mo dy] mo dy(1) by simp
  then have "jd = dy + (153 * m + 2) div 5 + 365 * (100 * B + D) + (25 * B + D div 4) - B + B div 4 - 32045"
    unfolding y'_eq by (simp only: hundred_split[OF D])
  then have a: "jd + 32044 = e0 + 365 * D + D div 4 + 36524 * B + B div 4"
    unfolding e0_def by simp
  note u = cycle_unique[OF D ed(2,3) l4 l400 a]
  have "civil_of_day jd = (100 * B + D - 4800 + m div 10, m + 3 - 12 * (m div 10), e0 - (153 * m + 2) div 5 + 1)"
  proof (rule civil_of_day_eqI)
    show "B = (4 * (jd + 32044) + 3) div 146097" by (rule u(1)[symmetric])
    show "e0 + 365 * D + D div 4 = jd + 32044 - 146097 * B div 4" by (rule u(2)[symmetric])
    show "D = (4 * (e0 + 365 * D + D div 4) + 3) div 1461" by (rule u(3)[symmetric])
    show "e0 = e0 + 365 * D + D div 4 - 1461 * D div 4" by (rule u(4)[symmetric])
    show "m = (5 * e0 + 2) div 153" by (rule ed(1)[symmetric])
  qed
  moreover have "100 * B + D - 4800 + m div 10 = y" using y'_eq y'_def m10 by linarith
  moreover have "e0 - (153 * m + 2) div 5 + 1 = dy" unfolding e0_def by simp
  ultimately have "civil_of_day jd = (y, mo, dy)" using mback by simp
  then show ?thesis unfolding jd_def .
qed

section \<open>Where the double arithmetic is exact\<close>

text \<open>
  With a year of at most \<open>2 * 10 ^ 13\<close> in size, a month in 1..12 and a day
  of at most 1000 in size, no operation of \<^verbatim>\<open>YMDtoJD\<close> is rounded; with a
  Julian Day of at most \<open>2 ^ 51 - 32045\<close> in size, none of \<^verbatim>\<open>JDtoYMD\<close>
  is (the largest intermediate value is \<^verbatim>\<open>4 * a + 3\<close>, which then stays
  below \<open>2 ^ 53\<close>).
\<close>

lemma div_bounds:
  fixes x n :: int
  assumes "0 < n"
  shows "n * (x div n) \<le> x" "x < n * (x div n) + n"
  using assms pos_mod_bound[of n x] pos_mod_sign[of n x] mult_div_mod_eq[of n x] by linarith+

lemma YMDtoJD_exact:
  assumes y: "\<bar>y\<bar> \<le> 20000000000000" and mo: "1 \<le> mo" "mo \<le> 12"
    and dy: "dy \<noteq> 0" "\<bar>dy\<bar> \<le> 1000"
  shows "YMDtoJD y (Num mo) (Num dy) = day_of_civil y mo dy"
proof -
  define a where "a = (14 - mo) div 12"
  define y' where "y' = y + 4800 - a"
  define m where "m = mo + 12 * a - 3"
  define t where "t = (153 * m + 2) div 5"
  define q4 where "q4 = y' div 4"
  define q100 where "q100 = y' div 100"
  define q400 where "q400 = y' div 400"
  from mo have "0 \<le> a \<and> a \<le> 1 \<and> 0 \<le> m \<and> m \<le> 11 \<and> 0 \<le> t \<and> t \<le> 337"
    unfolding t_def m_def a_def by (cases rule: month_cases) simp_all
  then have a: "0 \<le> a" "a \<le> 1" and m: "0 \<le> m" "m \<le> 11" and t: "0 \<le> t" "t \<le> 337"
    by simp_all
  have y'b: "\<bar>y'\<bar> \<le> 20000000004800" using y a unfolding y'_def by linarith
  note b4 = div_bounds[where n = 4 and x = y', OF zero_less_numeral, folded q4_def]
  note b100 = div_bounds[where n = 100 and x = y', OF zero_less_numeral, folded q100_def]
  note b400 = div_bounds[where n = 400 and x = y', OF zero_less_numeral, folded q400_def]
  have q4: "\<bar>q4\<bar> \<le> 5000000001201" using b4 y'b by linarith
  have q100: "\<bar>q100\<bar> \<le> 200000000049" using b100 y'b by linarith
  have q400: "\<bar>q400\<bar> \<le> 50000000013" using b400 y'b by linarith
  have om: "or_default (Num mo) 1 = mo" using mo by simp
  have od: "or_default (Num dy) 1 = dy" using dy by simp
  have e1: "jsub 14 mo = 14 - mo" using mo by (intro jsub_exact) linarith
  have e2: "Math_floor (jquot (14 - mo) 12) = a" unfolding a_def
    using mo by (intro floor_jquot) (linarith, simp)
  have e3: "jadd y 4800 = y + 4800" using y by (intro jadd_exact) linarith
  have e4: "jsub (y + 4800) a = y'" unfolding y'_def
    using y'b[unfolded y'_def] by (intro jsub_exact) linarith
  have e5: "jmul 12 a = 12 * a" using a by (intro jmul_exact) linarith
  have e6: "jadd mo (12 * a) = mo + 12 * a" using a mo by (intro jadd_exact) linarith
  have e7: "jsub (mo + 12 * a) 3 = m" unfolding m_def
    using m[unfolded m_def] by (intro jsub_exact) linarith
  have e8: "jmul 153 m = 153 * m" using m by (intro jmul_exact) linarith
  have e9: "jadd (153 * m) 2 = 153 * m + 2" using m by (intro jadd_exact) linarith
  have e10: "Math_floor (jquot (153 * m + 2) 5) = t" unfolding t_def
    using m by (intro floor_jquot) (linarith, simp)
  have e11: "jadd dy t = dy + t" using dy t by (intro jadd_exact) linarith
  have e12: "jmul 365 y' = 365 * y'" using y'b by (intro jmul_exact) linarith
  have e13: "jadd (dy + t) (365 * y') = dy + t + 365 * y'"
    using dy t y'b by (intro jadd_exact) linarith
  have e14: "Math_floor (jquot y' 4) = q4" unfolding q4_def
    using y'b by (intro floor_jquot) (linarith, simp)
  have e15: "Math_floor (jquot y' 100) = q100" unfolding q100_def
    using y'b by (intro floor_jquot) (linarith, simp)
  have e16: "Math_floor (jquot y' 400) = q400" unfolding q400_def
    using y'b by (intro floor_jquot) (linarith, simp)
  have e17: "jadd (dy + t + 365 * y') q4 = dy + t + 365 * y' + q4"
    using dy t y'b q4 by (intro jadd_exact) linarith
  have e18: "jsub (dy + t + 365 * y' + q4) q100 = dy + t + 365 * y' + q4 - q100"
    using dy t y'b q4 q100 by (intro jsub_exact) linarith
  have e19: "jadd (dy + t + 365 * y' + q4 - q100) q400 = dy + t + 365 * y' + q4 - q100 + q400"
    using dy t y'b q4 q100 q400 by (intro jadd_exact) linarith
  have e20: "jsub (dy + t + 365 * y' + q4 - q100 + q400) 32045
      = dy + t + 365 * y' + q4 - q100 + q400 - 32045"
    using dy t y'b q4 q100 q400 by (intro jsub_exact) linarith
  have "YMDtoJD y (Num mo) (Num dy) = dy + t + 365 * y' + q4 - q100 + q400 - 32045"
    by (simp only: YMDtoJD_def Let_def om od e1 e2 e3 e4 e5 e6 e7 e8 e9 e10 e11 e12 e13 e14
        e15 e16 e17 e18 e19 e20)
  also have "\<dots> = day_of_civil y mo dy"
    by (simp only: day_of_civil_def Let_def a_def y'_def m_def t_def q4_def q100_def q400_def)
  finally show ?thesis .
qed

lemma JDtoYMD_exact:
  assumes jd: "\<bar>jd\<bar> \<le> 2251799813653203"
  shows "JDtoYMD jd = civil_of_day jd"
proof -
  define a where "a = jd + 32044"
  define b where "b = (4 * a + 3) div 146097"
  define f where "f = (146097 * b) div 4"
  define c where "c = a - f"
  define d where "d = (4 * c + 3) div 1461"
  define g where "g = (1461 * d) div 4"
  define e where "e = c - g"
  define m where "m = (5 * e + 2) div 153"
  define h where "h = m div 10"
  define t where "t = (153 * m + 2) div 5"
  have ab: "\<bar>a\<bar> \<le> 2251799813685247" "- 2251799813621159 \<le> a" using jd unfolding a_def by linarith+
  note bb = div_bounds[where n = 146097 and x = "4 * a + 3", OF zero_less_numeral, folded b_def]
  have b: "\<bar>b\<bar> \<le> 61652184883" using bb ab by linarith
  have c_def': "c = a - (146097 * b) div 4" by (simp add: c_def f_def)
  note cr = c_range[OF b_def c_def']
  have e_def': "e = c - (1461 * d) div 4" by (simp add: e_def g_def)
  note dr = d_range[OF cr(1,2) d_def e_def']
  note mr = month_of_e[OF dr(3,4), folded m_def]
  note hb = div_bounds[where n = 10 and x = m, OF zero_less_numeral, folded h_def]
  have h: "0 \<le> h" "h \<le> 1" using hb mr by linarith+
  note tb = div_bounds[where n = 5 and x = "153 * m + 2", OF zero_less_numeral, folded t_def]
  have t: "0 \<le> t" "t \<le> 337" using tb mr by linarith+
  have e1: "jadd jd 32044 = a" unfolding a_def using ab[unfolded a_def] by (intro jadd_exact) linarith
  have e2: "jmul 4 a = 4 * a" using ab by (intro jmul_exact) linarith
  have e3: "jadd (4 * a) 3 = 4 * a + 3" using ab by (intro jadd_exact) linarith
  have e4: "Math_floor (jquot (4 * a + 3) 146097) = b" unfolding b_def
    using ab by (intro floor_jquot) (linarith, simp)
  have e5: "jmul 146097 b = 146097 * b" using bb ab by (intro jmul_exact) linarith
  have e6: "Math_floor (jquot (146097 * b) 4) = f" unfolding f_def
    using bb ab by (intro floor_jquot) (linarith, simp)
  have e7: "jsub a f = c" unfolding c_def using cr(1,2)[unfolded c_def] by (intro jsub_exact) linarith
  have e8: "jmul 4 c = 4 * c" using cr(1,2) by (intro jmul_exact) linarith
  have e9: "jadd (4 * c) 3 = 4 * c + 3" using cr(1,2) by (intro jadd_exact) linarith
  have e10: "Math_floor (jquot (4 * c + 3) 1461) = d" unfolding d_def
    using cr(1,2) by (intro floor_jquot) (linarith, simp)
  have e11: "jmul 1461 d = 1461 * d" using dr(1,2) by (intro jmul_exact) linarith
  have e12: "Math_floor (jquot (1461 * d) 4) = g" unfolding g_def
    using dr(1,2) by (intro floor_jquot) (linarith, simp)
  have e13: "jsub c g = e" unfolding e_def using dr(3,4)[unfolded e_def] by (intro jsub_exact) linarith
  have e14: "jmul 5 e = 5 * e" using dr(3,4) by (intro jmul_exact) linarith
  have e15: "jadd (5 * e) 2 = 5 * e + 2" using dr(3,4) by (intro jadd_exact) linarith
  have e16: "Math_floor (jquot (5 * e + 2) 153) = m" unfolding m_def
    using dr(3,4) by (intro floor_jquot) (linarith, simp)
  have e17: "jadd m 3 = m + 3" using mr by (intro jadd_exact) linarith
  have e18: "Math_floor (jquot m 10) = h" unfolding h_def
    using mr by (intro floor_jquot) (linarith, simp)
  have e19: "jmul 12 h = 12 * h" using h by (intro jmul_exact) linarith
  have e20: "jsub (m + 3) (12 * h) = m + 3 - 12 * h" using mr h by (intro jsub_exact) linarith
  have e21: "jmul 153 m = 153 * m" using mr by (intro jmul_exact) linarith
  have e22: "jadd (153 * m) 2 = 153 * m + 2" using mr by (intro jadd_exact) linarith
  have e23: "Math_floor (jquot (153 * m + 2) 5) = t" unfolding t_def
    using mr by (intro floor_jquot) (linarith, simp)
  have e24: "jsub e t = e - t" using dr(3,4) t by (intro jsub_exact) linarith
  have e25: "jadd (e - t) 1 = e - t + 1" using dr(3,4) t by (intro jadd_exact) linarith
  have e26: "jmul 100 b = 100 * b" using b by (intro jmul_exact) linarith
  have e27: "jadd (100 * b) d = 100 * b + d" using b dr(1,2) by (intro jadd_exact) linarith
  have e28: "jsub (100 * b + d) 4800 = 100 * b + d - 4800" using b dr(1,2) by (intro jsub_exact) linarith
  have e29: "jadd (100 * b + d - 4800) h = 100 * b + d - 4800 + h"
    using b dr(1,2) h by (intro jadd_exact) linarith
  have "JDtoYMD jd = (100 * b + d - 4800 + h, m + 3 - 12 * h, e - t + 1)"
    by (simp only: JDtoYMD_def Let_def e1 e2 e3 e4 e5 e6 e7 e8 e9 e10 e11 e12 e13 e14 e15 e16
        e17 e18 e19 e20 e21 e22 e23 e24 e25 e26 e27 e28 e29)
  also have "\<dots> = civil_of_day jd"
    by (simp only: civil_of_day_def Let_def a_def b_def c_def f_def d_def e_def g_def m_def
        h_def t_def)
  finally show ?thesis .
qed

lemma civil_year_bound:
  assumes "civil_of_day jd = (y, mo, dy)" and jd: "\<bar>jd\<bar> \<le> 2251799813653203"
  shows "\<bar>y\<bar> \<le> 20000000000000"
proof -
  obtain b d e m where
    ymd: "civil_of_day jd = (100 * b + d - 4800 + m div 10, m + 3 - 12 * (m div 10), e - (153 * m + 2) div 5 + 1)"
    and a: "jd + 32044 = e + 365 * d + d div 4 + 36524 * b + b div 4"
    and d: "0 \<le> d" "d \<le> 99" and e: "0 \<le> e" "e \<le> 365" and m_def: "m = (5 * e + 2) div 153"
    and leap: "e = 365 \<Longrightarrow> d mod 4 = 3" "e = 365 \<Longrightarrow> d = 99 \<Longrightarrow> b mod 4 = 3"
    by (rule civil_of_day_decompose[of jd]) blast
  have m: "0 \<le> m" "m \<le> 11" using month_of_e[OF e] by (simp_all add: m_def)
  define h where "h = m div 10"
  define qd where "qd = d div 4"
  define qb where "qb = b div 4"
  note hb = div_bounds[where n = 10 and x = m, OF zero_less_numeral, folded h_def]
  note db = div_bounds[where n = 4 and x = d, OF zero_less_numeral, folded qd_def]
  note bb = div_bounds[where n = 4 and x = b, OF zero_less_numeral, folded qb_def]
  have y: "y = 100 * b + d - 4800 + h" using ymd assms(1) by (simp add: h_def)
  have "jd + 32044 = e + 365 * d + qd + 36524 * b + qb" using a by (simp add: qd_def qb_def)
  then show ?thesis using y jd d e m hb db bb by linarith
qed

lemma day_of_civil_bound:
  assumes y: "\<bar>y\<bar> \<le> 6165218483000" and mo: "1 \<le> mo" "mo \<le> 12" and dy: "1 \<le> dy" "dy \<le> 31"
  shows "\<bar>day_of_civil y mo dy\<bar> \<le> 2251799813653203"
proof -
  define a where "a = (14 - mo) div 12"
  define y' where "y' = y + 4800 - a"
  define t where "t = (153 * (mo + 12 * a - 3) + 2) div 5"
  define q4 where "q4 = y' div 4"
  define q100 where "q100 = y' div 100"
  define q400 where "q400 = y' div 400"
  from mo have "0 \<le> a \<and> a \<le> 1 \<and> 0 \<le> t \<and> t \<le> 337"
    unfolding t_def a_def by (cases rule: month_cases) simp_all
  then have a: "0 \<le> a" "a \<le> 1" and t: "0 \<le> t" "t \<le> 337" by simp_all
  note b4 = div_bounds[where n = 4 and x = y', OF zero_less_numeral, folded q4_def]
  note b100 = div_bounds[where n = 100 and x = y', OF zero_less_numeral, folded q100_def]
  note b400 = div_bounds[where n = 400 and x = y', OF zero_less_numeral, folded q400_def]
  have "day_of_civil y mo dy = dy + t + 365 * y' + q4 - q100 + q400 - 32045"
    by (simp only: day_of_civil_def Let_def a_def y'_def t_def q4_def q100_def q400_def)
  moreover have "\<bar>y'\<bar> \<le> 6165218487800" using y a unfolding y'_def by linarith
  ultimately show ?thesis using dy t b4 b100 b400 by linarith
qed

section \<open>Round trips between Julian Day and civil date\<close>

text \<open>
  From here on the properties are about \<^verbatim>\<open>JDtoYMD\<close> and \<^verbatim>\<open>YMDtoJD\<close>
  themselves. Up to \<open>2 ^ 51 - 32045 = 2251799813653203\<close> in size of the
  Julian Day the two functions compute the exact formulas, and what was shown
  of the calendar carries over to them.
\<close>

lemma days_in_month_le: "days_in_month y m \<le> 31"
  by (simp add: days_in_month_def)

lemma JDtoYMD_in_range:
  assumes jd: "\<bar>jd\<bar> \<le> 2251799813653203"
  obtains y m d where "JDtoYMD jd = (y, m, d)" "civil_of_day jd = (y, m, d)"
    "valid_date y m d" "YMDtoJD y (Num m) (Num d) = jd"
proof -
  obtain y m d where c: "civil_of_day jd = (y, m, d)" by (cases "civil_of_day jd")
  have j: "JDtoYMD jd = (y, m, d)" using JDtoYMD_exact[OF jd] c by simp
  have v: "valid_date y m d" by (rule civil_of_day_valid[OF c])
  then have m: "1 \<le> m" "m \<le> 12" and d: "1 \<le> d" "d \<le> days_in_month y m"
    by (simp_all add: valid_date_def)
  have d': "d \<noteq> 0" "\<bar>d\<bar> \<le> 1000" using d days_in_month_le[of y m] by linarith+
  have y: "\<bar>y\<bar> \<le> 20000000000000" by (rule civil_year_bound[OF c jd])
  have "YMDtoJD y (Num m) (Num d) = day_of_civil y m d" by (rule YMDtoJD_exact[OF y m d'])
  then have "YMDtoJD y (Num m) (Num d) = jd" using civil_day_roundtrip[OF c] by simp
  with j c v show thesis by (rule that)
qed

text \<open>
  Claim C1, at a Julian Day beyond the exact range. For
  \<open>jd = 2 ^ 51 - 1 = 2251799813685247\<close> the sum \<^verbatim>\<open>4 * a + 3\<close> in
  \<^verbatim>\<open>JDtoYMD\<close> is an odd number above \<open>2 ^ 53\<close>, where the doubles are the
  even integers, and is rounded. \<^verbatim>\<open>JDtoYMD\<close> returns February 25 of the
  year 6165218483512, one day early, and \<^verbatim>\<open>YMDtoJD\<close> takes that date to
  2251799813685246, not to \<open>jd\<close>.
\<close>

theorem JD_roundtrip_beyond_exact_range:
  "JDtoYMD 2251799813685247 = (6165218483512, 2, 25)
   \<and> YMDtoJD 6165218483512 (Num 2) (Num 25) = 2251799813685246
   \<and> (case JDtoYMD 2251799813685247 of (y, m, d) \<Rightarrow> YMDtoJD y (Num m) (Num d))
       \<noteq> 2251799813685247"
proof -
  have ymd: "JDtoYMD 2251799813685247 = (6165218483512, 2, 25)"
    by code_simp
  have rev_day: "YMDtoJD 6165218483512 (Num 2) (Num 25) = 2251799813685246"
    by code_simp
  show ?thesis by (simp add: ymd rev_day)
qed

text \<open>
  Claim C1, amended. For every integer \<open>jd\<close> with
  \<open>\<bar>jd\<bar> \<le> 2 ^ 51 - 32045\<close>, converting \<open>jd\<close> to a civil date with
  \<^verbatim>\<open>JDtoYMD\<close> and passing the year, month and day to \<^verbatim>\<open>YMDtoJD\<close> gives
  \<open>jd\<close> back. The range \<open>-100000..3000000\<close> lies inside the bound.
\<close>

theorem JD_roundtrip:
  assumes "\<bar>jd\<bar> \<le> 2251799813653203"
  shows "(case JDtoYMD jd of (y, m, d) \<Rightarrow> YMDtoJD y (Num m) (Num d)) = jd"
proof -
  obtain y m d where "JDtoYMD jd = (y, m, d)" "YMDtoJD y (Num m) (Num d) = jd"
    using assms by (rule JDtoYMD_in_range)
  then show ?thesis by simp
qed

theorem JD_roundtrip_witness:
  "\<bar>- 100000 :: int\<bar> \<le> 2251799813653203
   \<and> JDtoYMD (- 100000) = (- 4986, 2, 9) \<and> YMDtoJD (- 4986) (Num 2) (Num 9) = - 100000"
proof -
  have ymd: "JDtoYMD (- 100000) = (- 4986, 2, 9)"
    by code_simp
  show ?thesis using JD_roundtrip[of "- 100000"] by (simp add: ymd)
qed

text \<open>
  Claim C2, at a year beyond the exact range. February 26 of the year
  6165218483512 is a valid civil date. \<^verbatim>\<open>YMDtoJD\<close> gives its Julian Day,
  \<open>2 ^ 51 - 1\<close>, and \<^verbatim>\<open>JDtoYMD\<close> takes that day to February 25, because
  of the rounded sum described under claim C1.
\<close>

theorem civil_roundtrip_beyond_exact_range:
  "(1::int) \<le> 2 \<and> (2::int) \<le> 12 \<and> (1::int) \<le> 26 \<and> 26 \<le> days_in_month 6165218483512 2
   \<and> YMDtoJD 6165218483512 (Num 2) (Num 26) = 2251799813685247
   \<and> JDtoYMD 2251799813685247 = (6165218483512, 2, 25)
   \<and> JDtoYMD (YMDtoJD 6165218483512 (Num 2) (Num 26)) \<noteq> (6165218483512, 2, 26)"
  by code_simp

text \<open>
  Claim C2, amended. For every valid proleptic-Gregorian civil date
  \<open>(y, m, d)\<close>, with \<open>1 \<le> m \<le> 12\<close> and \<open>d\<close> a day of month \<open>m\<close> in year
  \<open>y\<close>, whose year is at most 6165218483000 in size, converting it to a
  Julian Day with \<^verbatim>\<open>YMDtoJD\<close> and back with \<^verbatim>\<open>JDtoYMD\<close> gives the triple
  \<open>(y, m, d)\<close>. These are the years whose days all lie within
  \<open>2 ^ 51 - 32045\<close> of Julian Day 0, to the thousand.
\<close>

theorem civil_roundtrip:
  assumes "1 \<le> m" "m \<le> 12" "1 \<le> d" "d \<le> days_in_month y m" "\<bar>y\<bar> \<le> 6165218483000"
  shows "JDtoYMD (YMDtoJD y (Num m) (Num d)) = (y, m, d)"
proof -
  have d: "d \<le> 31" "d \<noteq> 0" "\<bar>d\<bar> \<le> 1000"
    using assms(3,4) days_in_month_le[of y m] by linarith+
  have y: "\<bar>y\<bar> \<le> 20000000000000" using assms(5) by linarith
  have "YMDtoJD y (Num m) (Num d) = day_of_civil y m d"
    by (rule YMDtoJD_exact[OF y assms(1,2) d(2,3)])
  moreover have "\<bar>day_of_civil y m d\<bar> \<le> 2251799813653203"
    by (rule day_of_civil_bound[OF assms(5,1,2,3) d(1)])
  moreover have "civil_of_day (day_of_civil y m d) = (y, m, d)"
    using assms(1-4) by (intro day_civil_roundtrip) (simp add: valid_date_def)
  ultimately show ?thesis using JDtoYMD_exact[of "day_of_civil y m d"] by simp
qed

theorem civil_roundtrip_witness:
  "(1::int) \<le> 2 \<and> (2::int) \<le> 12 \<and> (1::int) \<le> 29 \<and> 29 \<le> days_in_month 2000 2
    \<and> \<bar>2000 :: int\<bar> \<le> 6165218483000
    \<and> JDtoYMD (YMDtoJD 2000 (Num 2) (Num 29)) = (2000, 2, 29)"
proof -
  have len: "29 \<le> days_in_month 2000 2" by code_simp
  show ?thesis using civil_roundtrip[of 2 29 2000] len by simp
qed

text \<open>
  Claim C9, at a Julian Day beyond the exact range. For
  \<open>JD = 2251799813680868\<close> \<^verbatim>\<open>JDtoYMD\<close> returns February 29 of the year
  6165218483500, which is a multiple of 100 and not of 400, so not a leap
  year: its February has 28 days, and the triple is not a civil date.
\<close>

theorem JDtoYMD_beyond_exact_range:
  "JDtoYMD 2251799813680868 = (6165218483500, 2, 29)
   \<and> \<not> leap_year 6165218483500 \<and> days_in_month 6165218483500 2 = 28
   \<and> \<not> (case JDtoYMD 2251799813680868 of
           (y, m, d) \<Rightarrow> 1 \<le> m \<and> m \<le> 12 \<and> 1 \<le> d \<and> d \<le> days_in_month y m)"
  by code_simp

text \<open>
  Claim C9, amended. For every integer \<open>JD\<close> with
  \<open>\<bar>JD\<bar> \<le> 2 ^ 51 - 32045\<close>, the triple returned by \<^verbatim>\<open>JDtoYMD\<close> is a
  valid Gregorian civil date: the month lies in 1..12 and the day in 1..L, where
  L is the length of that month in that year under the leap-year rule. This
  includes negative \<open>JD\<close>.
\<close>

theorem JDtoYMD_valid_date:
  assumes "\<bar>JD\<bar> \<le> 2251799813653203"
  shows "(case JDtoYMD JD of (y, m, d) \<Rightarrow> 1 \<le> m \<and> m \<le> 12 \<and> 1 \<le> d \<and> d \<le> days_in_month y m)"
proof -
  obtain y m d where "JDtoYMD JD = (y, m, d)" "valid_date y m d"
    using assms by (rule JDtoYMD_in_range)
  then show ?thesis by (simp add: valid_date_def)
qed

theorem JDtoYMD_valid_date_witness:
  "\<bar>- 1 :: int\<bar> \<le> 2251799813653203
   \<and> JDtoYMD (- 1) = (- 4713, 11, 23) \<and> (23::int) \<le> days_in_month (- 4713) 11"
proof -
  have ymd: "JDtoYMD (- 1) = (- 4713, 11, 23)"
    by code_simp
  show ?thesis using JDtoYMD_valid_date[of "- 1"] by (simp add: ymd)
qed

text \<open>
  Claim C8. For every year \<open>y\<close> and month \<open>m\<close>, \<^verbatim>\<open>YMDtoJD\<close> with an explicit
  day 0 gives the same result as with day 1, and so does an omitted day; with
  month and day both omitted the result is that of January 1.
\<close>

theorem YMDtoJD_defaults:
  "YMDtoJD y (Num m) (Num 0) = YMDtoJD y (Num m) (Num 1)
   \<and> YMDtoJD y (Num m) Undefined = YMDtoJD y (Num m) (Num 1)
   \<and> YMDtoJD y Undefined Undefined = YMDtoJD y (Num 1) (Num 1)"
  by (simp add: YMDtoJD_def)

theorem YMDtoJD_defaults_witness:
  "YMDtoJD 2015 (Num 3) (Num 0) = 2457083 \<and> YMDtoJD 2015 (Num 3) (Num 1) = 2457083
   \<and> YMDtoJD 2015 Undefined Undefined = YMDtoJD 2015 (Num 1) (Num 1)"
proof -
  have "YMDtoJD 2015 (Num 3) (Num 1) = 2457083"
    by code_simp
  then show ?thesis using YMDtoJD_defaults[of 2015 3] by simp
qed

section \<open>Writing a Julian Day into a calendar-date object\<close>




section \<open>Digits, numbers and fields of a string\<close>

text \<open>
  Writing a non-negative integer and reading the digits back gives the same
  integer, with or without the leading zero that \<^verbatim>\<open>pad_\<close> adds; a run of
  digits contains no separator, so splitting cuts exactly at the separators
  that the formatting functions wrote.
\<close>

lemma digit_char_props:
  assumes "n < 10"
  shows "digit_val (digit_char n) = n" "is_digit (digit_char n)"
proof -
  have "\<forall>k \<in> set [0..<10]. digit_val (digit_char k) = k \<and> is_digit (digit_char k)"
    by code_simp
  then show "digit_val (digit_char n) = n" "is_digit (digit_char n)"
    using assms by simp_all
qed

lemma is_digit_not_sep:
  assumes "is_digit c"
  shows "c \<noteq> CHR ''-''" "c \<noteq> CHR '':''" "c \<noteq> CHR ''+''" "c \<noteq> CHR ''W''"
  using assms by (auto simp: is_digit_def)

lemma dec_snoc: "dec (xs @ [c]) = 10 * dec xs + digit_val c"
  by (simp add: dec_def)

lemma dec_zero_Cons: "dec (CHR ''0'' # xs) = dec xs"
  by (simp add: dec_def digit_val_def)

lemma digits_props:
  "digits n \<noteq> [] \<and> list_all is_digit (digits n) \<and> dec (digits n) = n"
proof (induction n rule: digits.induct)
  case (1 n)
  show ?case
  proof (cases "n < 10")
    case True
    then show ?thesis
      by (subst (1 2 3) digits.simps) (simp add: digit_char_props dec_def)
  next
    case False
    have "n mod 10 < 10" by simp
    note dc = digit_char_props[OF this]
    from False 1 show ?thesis
      by (subst (1 2 3) digits.simps) (simp add: dc dec_snoc)
  qed
qed

lemma is_digits_digits: "is_digits (digits n)"
  using digits_props[of n] by (simp add: is_digits_def)

lemma Number_digits:
  assumes "is_digits s"
  shows "Number s = Num (int (dec s))"
proof (cases s)
  case Nil
  then show ?thesis using assms by (simp add: is_digits_def)
next
  case (Cons c cs)
  then have "is_digit c" using assms by (simp add: is_digits_def)
  then have "c \<noteq> CHR ''-''" "c \<noteq> CHR ''+''" by (simp_all add: is_digit_not_sep)
  then show ?thesis using assms Cons by (simp add: Number_def)
qed

lemma split_on_none:
  assumes "sep \<notin> set xs"
  shows "split_on sep xs = [xs]"
  using assms by (induction xs) auto

lemma split_on_first:
  assumes "sep \<notin> set xs"
  shows "split_on sep (xs @ sep # ys) = xs # split_on sep ys"
  using assms by (induction xs) auto

lemma digits_no_sep:
  assumes "is_digits s"
  shows "CHR ''-'' \<notin> set s" "CHR '':'' \<notin> set s" "CHR ''W'' \<notin> set s"
proof -
  have d: "is_digit c" if "c \<in> set s" for c
    using assms that by (simp add: is_digits_def list_all_iff)
  have "\<not> is_digit CHR ''-''" "\<not> is_digit CHR '':''" "\<not> is_digit CHR ''W''"
    by (simp_all add: is_digit_def)
  then show "CHR ''-'' \<notin> set s" "CHR '':'' \<notin> set s" "CHR ''W'' \<notin> set s"
    using d by blast+
qed

lemma pad_props:
  assumes "0 \<le> k"
  shows "is_digits (pad k)" "dec (pad k) = nat k"
proof -
  have z: "is_digit CHR ''0''" by (simp add: is_digit_def)
  show "is_digits (pad k)" using assms is_digits_digits[of "nat k"] z
    by (simp add: pad_def toString_def is_digits_def)
  show "dec (pad k) = nat k" using assms digits_props[of "nat k"]
    by (simp add: pad_def toString_def dec_zero_Cons)
qed

lemma toString_nonneg:
  assumes "0 \<le> k"
  shows "is_digits (toString k)" "dec (toString k) = nat k"
  using assms is_digits_digits[of "nat k"] digits_props[of "nat k"] by (simp_all add: toString_def)

section \<open>Day of the week\<close>

text \<open>
  On a date whose Julian Day is not negative (from November 24 of the year
  -4713 on) and whose year is below \<open>2 ^ 31\<close> in size, the quotients that
  \<^verbatim>\<open>YMDtoDayOfWeek\<close> cuts with \<^verbatim>\<open>>> 0\<close> are those that \<^verbatim>\<open>YMDtoJD\<close>
  floors, and the result is the Julian Day plus one, modulo 7: a value in 0..6
  with 0 for Sunday.
\<close>

lemma year_count_negative:
  fixes y :: int
  assumes "y < 0"
  shows "365 * y + y div 4 - y div 100 + y div 400 < 0"
proof -
  define q4 where "q4 = y div 4"
  define q100 where "q100 = y div 100"
  define q400 where "q400 = y div 400"
  have a: "4 * q4 \<le> y" unfolding q4_def by (simp add: mult.commute[of 4])
  have b: "y < 100 * q100 + 100" unfolding q100_def
    using pos_mod_bound[of 100 y] by (simp add: mod_div_decomp)
  have c: "400 * q400 \<le> y" unfolding q400_def by (simp add: mult.commute[of 400])
  have "365 * y + q4 - q100 + q400 < 0" using assms a b c by linarith
  then show ?thesis by (simp add: q4_def q100_def q400_def)
qed

lemma YMDtoDayOfWeek_from_JD:
  assumes mo: "1 \<le> mo" "mo \<le> 12" and dy: "1 \<le> dy" "dy \<le> 31"
    and jd: "0 \<le> YMDtoJD y (Num mo) (Num dy)" and y: "- 2147483648 \<le> y" "y < 2147483648"
  shows "YMDtoDayOfWeek y mo dy = (YMDtoJD y (Num mo) (Num dy) + 1) mod 7"
proof -
  define a where "a = (14 - mo) div 12"
  define y' where "y' = y + 4800 - a"
  define t where "t = (153 * (mo + 12 * a - 3) + 2) div 5"
  define jdn where "jdn = YMDtoJD y (Num mo) (Num dy)"
  from mo have facts: "0 \<le> a \<and> a \<le> 1 \<and> 0 \<le> 153 * (mo + 12 * a - 3) + 2 \<and> 0 \<le> t \<and> t \<le> 337"
    unfolding a_def t_def by (cases rule: month_cases) simp_all
  define s where "s = 365 * y' + y' div 4 - y' div 100 + y' div 400"
  have "YMDtoJD y (Num mo) (Num dy) = day_of_civil y mo dy"
    using y mo dy by (intro YMDtoJD_exact) linarith+
  then have jd_sum: "jdn = dy + t + 365 * y' + y' div 4 - y' div 100 + y' div 400 - 32045"
    unfolding jdn_def t_def y'_def a_def by (simp only: day_of_civil_unfold)
  then have jd_eq: "jdn = dy + t + s - 32045" by (simp add: s_def)
  have y'0: "0 \<le> y'"
  proof (rule ccontr)
    assume "\<not> 0 \<le> y'"
    then have "s < 0" unfolding s_def by (intro year_count_negative) simp
    then show False using jd jd_eq facts dy unfolding jdn_def[symmetric] by linarith
  qed
  have y'hi: "y' < 2147488448" using y(2) facts unfolding y'_def by linarith
  have A: "ToInt32 (jsdiv (14 - mo) 12) = a" unfolding a_def
    using mo by (intro ToInt32_jsdiv_nonneg) simp_all
  from facts have "t < 2147483648" by simp
  then have tb: "(153 * (mo + 12 * a - 3) + 2) div 5 < 2147483648" by (simp only: t_def)
  from facts have tn: "0 \<le> 153 * (mo + 12 * a - 3) + 2" by simp
  have T: "ToInt32 (jsdiv (153 * (mo + 12 * a - 3) + 2) 5) = t" unfolding t_def
    by (rule ToInt32_jsdiv_nonneg[OF tn _ tb]) simp
  have Q4: "ToInt32 (jsdiv y' 4) = y' div 4"
    using y'0 y'hi by (intro ToInt32_jsdiv_nonneg) simp_all
  have Q100: "ToInt32 (jsdiv y' 100) = y' div 100"
    using y'0 y'hi by (intro ToInt32_jsdiv_nonneg) simp_all
  have Q400: "ToInt32 (jsdiv y' 400) = y' div 400"
    using y'0 y'hi by (intro ToInt32_jsdiv_nonneg) simp_all
  have "YMDtoDayOfWeek y mo dy = (if js_rem jdn 7 + 1 = 7 then 0 else js_rem jdn 7 + 1)"
    unfolding YMDtoDayOfWeek_def Let_def A y'_def[symmetric] T Q4 Q100 Q400 jd_sum ..
  also have "\<dots> = (if jdn mod 7 + 1 = 7 then 0 else jdn mod 7 + 1)"
    using jd by (simp only: jdn_def[symmetric] js_rem_nonneg)
  also have "\<dots> = (jdn + 1) mod 7"
  proof -
    define k where "k = jdn mod 7"
    have k: "0 \<le> k" "k < 7" by (simp_all add: k_def)
    have "(jdn + 1) mod 7 = (k + 1) mod 7" unfolding k_def by (rule mod_add_left_eq[symmetric])
    also have "\<dots> = (if k + 1 = 7 then 0 else k + 1)"
    proof (cases "k + 1 = 7")
      case True
      then show ?thesis by simp
    next
      case False
      then have "0 \<le> k + 1" "k + 1 < 7" using k by linarith+
      then show ?thesis using False by simp
    qed
    finally show ?thesis unfolding k_def by simp
  qed
  finally show ?thesis unfolding jdn_def .
qed

text \<open>
  Claim C6, at a date before Julian Day 0. January 1 of the year -4713 is a
  valid civil date, and \<^verbatim>\<open>YMDtoDayOfWeek\<close> returns -4 for it, outside 0..6:
  the day count that the function forms is the Julian Day of the date, here
  -327, and \<^verbatim>\<open>% 7\<close> keeps the sign of a negative dividend, so the
  remainder is -5 where the floor-based remainder is 2.
\<close>

theorem YMDtoDayOfWeek_before_epoch:
  "valid_date (- 4713) 1 1 \<and> YMDtoDayOfWeek (- 4713) 1 1 = - 4
   \<and> YMDtoJD (- 4713) (Num 1) (Num 1) = - 327"
  by code_simp

section \<open>ISO week strings\<close>

text \<open>
  Claim C4. \<^verbatim>\<open>YDMtoISO_YW( 2016, 1, 1 )\<close> is the string \<^verbatim>\<open>2015-W53\<close>: January
  1, 2016 is a Friday (day 5 of the week) and belongs to week 53 of the ISO
  week-numbering year 2015.
\<close>

theorem YDMtoISO_YW_2016_01_01:
  "YDMtoISO_YW 2016 (Num 1) (Num 1) = ''2015-W53''
   \<and> YMDtoYWd 2016 (Num 1) (Num 1) = (2015, 53, 5)
   \<and> YMDtoDayOfWeek 2016 1 1 = 5"
  by code_simp

lemma YWDoWtoJD_dow_default:
  "YWDoWtoJD y w NaN = YWDoWtoJD y w (Num 1)" "YWDoWtoJD y w Undefined = YWDoWtoJD y w (Num 1)"
  by (simp_all add: YWDoWtoJD_def)

lemma split_week_string:
  assumes "is_digits ys" "is_digits ws"
  shows "split_on CHR ''-'' (ys @ ''-W'' @ ws) = [ys, CHR ''W'' # ws]"
    and "split_on CHR ''-'' (ys @ ''-W'' @ ws @ ''-1'') = [ys, CHR ''W'' # ws, ''1'']"
proof -
  have ys: "CHR ''-'' \<notin> set ys" and ws: "CHR ''-'' \<notin> set (CHR ''W'' # ws)"
    using assms digits_no_sep(1) by simp_all
  have one: "CHR ''-'' \<notin> set ''1''" by simp
  have "split_on CHR ''-'' (ys @ ''-W'' @ ws) = split_on CHR ''-'' (ys @ CHR ''-'' # (CHR ''W'' # ws))"
    by simp
  also have "\<dots> = ys # split_on CHR ''-'' (CHR ''W'' # ws)"
    by (rule split_on_first[OF ys])
  also have "\<dots> = [ys, CHR ''W'' # ws]"
    by (simp only: split_on_none[OF ws])
  finally show "split_on CHR ''-'' (ys @ ''-W'' @ ws) = [ys, CHR ''W'' # ws]" .
  have "split_on CHR ''-'' (ys @ ''-W'' @ ws @ ''-1'')
      = split_on CHR ''-'' (ys @ CHR ''-'' # ((CHR ''W'' # ws) @ CHR ''-'' # ''1''))"
    by simp
  also have "\<dots> = ys # split_on CHR ''-'' ((CHR ''W'' # ws) @ CHR ''-'' # ''1'')"
    by (rule split_on_first[OF ys])
  also have "\<dots> = ys # (CHR ''W'' # ws) # split_on CHR ''-'' ''1''"
    by (simp only: split_on_first[OF ws])
  also have "\<dots> = [ys, CHR ''W'' # ws, ''1'']"
    by (simp only: split_on_none[OF one])
  finally show "split_on CHR ''-'' (ys @ ''-W'' @ ws @ ''-1'') = [ys, CHR ''W'' # ws, ''1'']" .
qed

text \<open>
  The day that \<^verbatim>\<open>YWDoWtoJD\<close> returns for weekday 1 of week \<open>w\<close> is the
  Monday of that ISO week. With Julian Day \<open>jd\<close> the day of the week is
  \<open>(jd + 1) mod 7\<close>, 1 for Monday. For week 1 it is the Monday on or before
  January 4, as ISO 8601 defines the first week, and week \<open>w\<close> starts
  \<open>7 * (w - 1)\<close> days after week 1. (Years from 0 to \<open>2 ^ 31 - 1\<close>, where
  \<^verbatim>\<open>YMDtoDayOfWeek\<close> of January 1 is right and \<^verbatim>\<open>YMDtoJD\<close> is exact.)
\<close>

lemma year_count_nonneg:
  fixes y :: int
  assumes "0 \<le> y"
  shows "0 \<le> y div 4 - y div 100 + y div 400"
proof -
  have "y div 100 \<le> y div 4" using assms by (intro zdiv_mono2) simp_all
  moreover have "0 \<le> y div 400" using assms by (simp add: pos_imp_zdiv_nonneg_iff)
  ultimately show ?thesis by linarith
qed

lemma day_of_civil_january:
  "day_of_civil y 1 k =
    k + 306 + 365 * (y + 4799) + (y + 4799) div 4 - (y + 4799) div 100 + (y + 4799) div 400 - 32045"
  using day_of_civil_unfold[of y 1 k] by (simp add: add.commute[of y 4799])

lemma day_of_civil_december:
  "day_of_civil (y - 1) 12 k =
    k + 275 + 365 * (y + 4799) + (y + 4799) div 4 - (y + 4799) div 100 + (y + 4799) div 400 - 32045"
  using day_of_civil_unfold[of "y - 1" 12 k] by (simp add: add.commute[of y 4799])

lemma monday_on_or_before:
  fixes a j :: int
  assumes "a mod 7 = 0" "j - 6 \<le> a" "a \<le> j"
  shows "a = j - j mod 7"
proof -
  define p where "p = j div 7"
  define r where "r = j mod 7"
  define k where "k = a div 7"
  have j: "j = 7 * p + r" by (simp add: p_def r_def)
  have r: "0 \<le> r" "r < 7" by (simp_all add: r_def)
  have a: "a = 7 * k" using assms(1) by (simp add: k_def mod_eq_0_iff_dvd)
  have "k = p" using assms(2,3) j r a by linarith
  then have "a = j - r" using a j by linarith
  then show ?thesis by (simp only: r_def)
qed

lemma YWDoWtoJD_monday:
  assumes y: "0 \<le> y" "y < 2147483648"
  shows "(YWDoWtoJD y w (Num 1) + 1) mod 7 = 1"
    and "YMDtoJD y (Num 1) (Num 4) - 6 \<le> YWDoWtoJD y 1 (Num 1)"
    and "YWDoWtoJD y 1 (Num 1) \<le> YMDtoJD y (Num 1) (Num 4)"
    and "YWDoWtoJD y w (Num 1) = YWDoWtoJD y 1 (Num 1) + 7 * (w - 1)"
    and "YWDoWtoJD y w (Num 1) = iso_week_monday y w"
proof -
  define J where "J = day_of_civil y 1 1"
  have jan: "YMDtoJD y (Num 1) (Num k) = J + k - 1" if "1 \<le> k" "k \<le> 31" for k
  proof -
    have "YMDtoJD y (Num 1) (Num k) = day_of_civil y 1 k"
      using y that by (intro YMDtoJD_exact) linarith+
    then show ?thesis unfolding J_def by (simp add: day_of_civil_january)
  qed
  have dec: "YMDtoJD (y - 1) (Num 12) (Num k) = J + k - 32" if "1 \<le> k" "k \<le> 31" for k
  proof -
    have "YMDtoJD (y - 1) (Num 12) (Num k) = day_of_civil (y - 1) 12 k"
      using y that by (intro YMDtoJD_exact) linarith+
    then show ?thesis unfolding J_def by (simp add: day_of_civil_january day_of_civil_december)
  qed
  have "0 \<le> (y + 4799) div 4 - (y + 4799) div 100 + (y + 4799) div 400"
    using y by (intro year_count_nonneg) simp
  then have J0: "0 \<le> J" unfolding J_def using y by (simp add: day_of_civil_january)
  have J1: "YMDtoJD y (Num 1) (Num 1) = J" using jan[of 1] by simp
  define dw where "dw = (J + 1) mod 7"
  have dw: "YMDtoDayOfWeek y 1 1 = dw" unfolding dw_def J1[symmetric]
    using J0 y by (intro YMDtoDayOfWeek_from_JD) (simp_all add: J1)
  have dwr: "0 \<le> dw" "dw < 7" by (simp_all add: dw_def)
  define q where "q = (J + 1) div 7"
  have Jq: "J + 1 = 7 * q + dw" by (simp add: q_def dw_def)
  define dowby where "dowby = (if dw = 0 then 7 else dw)"
  define anchor where "anchor = (if 1 < dowby \<and> dowby < 5 then J + 1 - dowby
      else if dowby = 1 then J else J + 8 - dowby)"
  have dowby: "1 \<le> dowby" "dowby \<le> 7" using dwr by (simp_all add: dowby_def)
  have W: "YWDoWtoJD y w (Num 1) = anchor + 7 * (w - 1)" for w
    using dowby by (simp add: YWDoWtoJD_def dw dowby_def[symmetric] Let_def jan dec anchor_def)
  have a7: "anchor = 7 * (if 4 < dw then q + 1 else q)"
    using Jq dwr unfolding anchor_def dowby_def by (auto split: if_splits)
  have "(anchor + 7 * (w - 1) + 1) mod 7 = (1 + 7 * ((if 4 < dw then q + 1 else q) + (w - 1))) mod 7"
    using a7 by (simp add: algebra_simps)
  also have "\<dots> = 1" by (simp only: mod_mult_self2) simp
  finally show "(YWDoWtoJD y w (Num 1) + 1) mod 7 = 1" by (simp only: W)
  have j4: "YMDtoJD y (Num 1) (Num 4) = J + 3" using jan[of 4] by simp
  have lo: "J + 3 - 6 \<le> anchor" and hi: "anchor \<le> J + 3"
    using dowby unfolding anchor_def by (simp_all split: if_splits)
  show "YMDtoJD y (Num 1) (Num 4) - 6 \<le> YWDoWtoJD y 1 (Num 1)"
    using lo unfolding W j4 by simp
  show "YWDoWtoJD y 1 (Num 1) \<le> YMDtoJD y (Num 1) (Num 4)"
    using hi unfolding W j4 by simp
  show "YWDoWtoJD y w (Num 1) = YWDoWtoJD y 1 (Num 1) + 7 * (w - 1)"
    unfolding W by simp
  have "anchor mod 7 = 0" unfolding a7 by simp
  then have "anchor = (J + 3) - (J + 3) mod 7" using lo hi by (rule monday_on_or_before)
  moreover have "day_of_civil y 1 4 = J + 3"
    unfolding J_def by (simp add: day_of_civil_january)
  ultimately show "YWDoWtoJD y w (Num 1) = iso_week_monday y w"
    unfolding W iso_week_monday_def Let_def by simp
qed

text \<open>
  Claim C10. For a week string \<^verbatim>\<open>YYYY-Www\<close> without a day (a run of digits
  for the year, \<^verbatim>\<open>-W\<close>, a run of digits for the week; year and week below
  \<open>2 ^ 31\<close>), \<^verbatim>\<open>ISOtoJD\<close> returns the Julian Day of the Monday of week
  \<open>ww\<close> of the week-numbering year \<open>YYYY\<close>, \<open>iso_week_monday\<close>: the
  Monday on or before January 4 of that year, plus \<open>7 * (ww - 1)\<close> days. It
  is the value of \<^verbatim>\<open>YWDoWtoJD( YYYY, ww, 1 )\<close>, and also what \<^verbatim>\<open>ISOtoJD\<close>
  returns for \<^verbatim>\<open>YYYY-Www-1\<close>. The missing third token converts to \<^verbatim>\<open>NaN\<close>,
  which \<^verbatim>\<open>YWDoWtoJD\<close> replaces by 1. In the functions of the library: the
  day returned has day of the week 1, week \<open>ww\<close> starts \<open>7 * (ww - 1)\<close> days
  after week 1, and week 1 starts at most 6 days before January 4 and not
  after it.
\<close>

theorem ISOtoJD_week_without_day:
  assumes "is_digits ys" "is_digits ws"
    and "int (dec ys) < 2147483648" "int (dec ws) < 2147483648"
  shows "ISOtoJD (ys @ ''-W'' @ ws) = Inr (Num (iso_week_monday (int (dec ys)) (int (dec ws))))
    \<and> ISOtoJD (ys @ ''-W'' @ ws @ ''-1'') = ISOtoJD (ys @ ''-W'' @ ws)
    \<and> YWDoWtoJD (int (dec ys)) (int (dec ws)) (Num 1) = iso_week_monday (int (dec ys)) (int (dec ws))
    \<and> unary_plus (element (split_on CHR ''-'' (ys @ ''-W'' @ ws)) 2) = NaN
    \<and> YWDoWtoJD (int (dec ys)) (int (dec ws)) NaN = YWDoWtoJD (int (dec ys)) (int (dec ws)) (Num 1)
    \<and> (YWDoWtoJD (int (dec ys)) (int (dec ws)) (Num 1) + 1) mod 7 = 1
    \<and> YWDoWtoJD (int (dec ys)) (int (dec ws)) (Num 1)
        = YWDoWtoJD (int (dec ys)) 1 (Num 1) + 7 * (int (dec ws) - 1)
    \<and> YMDtoJD (int (dec ys)) (Num 1) (Num 4) - 6 \<le> YWDoWtoJD (int (dec ys)) 1 (Num 1)
    \<and> YWDoWtoJD (int (dec ys)) 1 (Num 1) \<le> YMDtoJD (int (dec ys)) (Num 1) (Num 4)"
proof -
  define y where "y = int (dec ys)"
  define w where "w = int (dec ws)"
  note sp = split_week_string[OF assms(1,2)]
  have one: "Number ''1'' = Num 1" by code_simp
  have 1: "ISOtoJD (ys @ ''-W'' @ ws) = Inr (Num (YWDoWtoJD y w NaN))"
    unfolding ISOtoJD_def sp y_def w_def
    by (simp add: element_def unary_plus_def YWDoWtoJD_js_def Number_digits[OF assms(1)]
        Number_digits[OF assms(2)])
  have 2: "ISOtoJD (ys @ ''-W'' @ ws @ ''-1'') = Inr (Num (YWDoWtoJD y w (Num 1)))"
    unfolding ISOtoJD_def sp y_def w_def
    by (simp add: element_def unary_plus_def YWDoWtoJD_js_def Number_digits[OF assms(1)]
        Number_digits[OF assms(2)] one)
  have 3: "unary_plus (element (split_on CHR ''-'' (ys @ ''-W'' @ ws)) 2) = NaN"
    unfolding sp by (simp add: element_def unary_plus_def)
  have 4: "YWDoWtoJD y w NaN = YWDoWtoJD y w (Num 1)" by (rule YWDoWtoJD_dow_default(1))
  have y: "0 \<le> y" "y < 2147483648" using assms(3) by (simp_all add: y_def)
  note m = YWDoWtoJD_monday[OF y]
  have 5: "ISOtoJD (ys @ ''-W'' @ ws) = Inr (Num (iso_week_monday y w))"
    by (simp only: 1 4 m(5))
  have 6: "ISOtoJD (ys @ ''-W'' @ ws @ ''-1'') = ISOtoJD (ys @ ''-W'' @ ws)"
    by (simp only: 1 2 4)
  show ?thesis
    unfolding y_def[symmetric] w_def[symmetric]
    by (intro conjI) (rule 3 4 5 6 m)+
qed

theorem ISOtoJD_week_without_day_witness:
  "is_digits ''2015'' \<and> is_digits ''05''
   \<and> int (dec ''2015'') < 2147483648 \<and> int (dec ''05'') < 2147483648
   \<and> ISOtoJD ''2015-W05'' = Inr (Num 2457049) \<and> ISOtoJD ''2015-W05-1'' = Inr (Num 2457049)
   \<and> iso_week_monday 2015 5 = 2457049 \<and> YMDtoJD 2015 (Num 1) (Num 26) = 2457049
   \<and> YMDtoJD 2015 (Num 1) (Num 4) = 2457027 \<and> YWDoWtoJD 2015 1 (Num 1) = 2457021"
proof -
  have d: "is_digits ''2015''" "is_digits ''05''" by code_simp+
  have n: "int (dec ''2015'') = 2015" "int (dec ''05'') = 5" by code_simp+
  have b: "int (dec ''2015'') < 2147483648" "int (dec ''05'') < 2147483648"
    by (simp_all add: n)
  have v: "iso_week_monday 2015 5 = 2457049" by code_simp
  have j: "YMDtoJD 2015 (Num 1) (Num 26) = 2457049" "YMDtoJD 2015 (Num 1) (Num 4) = 2457027"
    by code_simp+
  have k: "YWDoWtoJD 2015 1 (Num 1) = 2457021" by code_simp
  show ?thesis using ISOtoJD_week_without_day[OF d b] d b j k by (simp add: n v)
qed

section \<open>Absolute months\<close>

lemma split_two_fields:
  assumes "sep \<notin> set xs" "sep \<notin> set ys"
  shows "split_on sep (xs @ sep # ys) = [xs, ys]"
  by (simp only: split_on_first[OF assms(1)] split_on_none[OF assms(2)])

lemma ADMonth_parts:
  assumes "0 \<le> n" "n < 25769803776"
  shows "ToInt32 (jsdiv n 12) = n div 12" "js_rem n 12 = n mod 12"
proof -
  have "n div 12 < 2147483648" using assms by simp
  then show "ToInt32 (jsdiv n 12) = n div 12" using assms(1) by (simp add: ToInt32_jsdiv_nonneg)
  show "js_rem n 12 = n mod 12" using assms(1) by (simp add: js_rem_nonneg)
qed

text \<open>
  Claim C3, at a negative month number. For \<open>n = -1\<close> the year part
  \<^verbatim>\<open>-1 / 12 >> 0\<close> is 0 and the month part \<^verbatim>\<open>-1 % 12 + 1\<close> is 0, so the
  string is \<^verbatim>\<open>0-00\<close>, which reads back as month number 0; and
  \<^verbatim>\<open>ADMonthToJD( -1 )\<close> is the Julian Day of January 1 of year 0 rather than
  that of December 1 of year -1.
\<close>

theorem ADMonth_negative_counterexample:
  "ADMonthToISO_YM (- 1) = ''0-00''
   \<and> ISOtoADMonth (ADMonthToISO_YM (- 1)) \<noteq> Num (- 1)
   \<and> ADMonthToJD (- 1) \<noteq> YMDtoJD ((- 1) div 12) (Num ((- 1) mod 12 + 1)) (Num 1)"
  by code_simp

text \<open>
  Above the 32-bit range the year part wraps around: month number
  \<open>12 * 2 ^ 31\<close> is given the year \<open>- 2 ^ 31\<close>.
\<close>

lemma ADMonth_year_wraps: "ToInt32 (jsdiv 25769803776 12) = - 2147483648"
  by (simp add: ToInt32_def trunc_jsdiv)

text \<open>
  Claim C3, amended. For every month number \<open>n\<close> with \<open>0 \<le> n < 12 * 2 ^ 31\<close>:
  \<^verbatim>\<open>ISOtoADMonth( ADMonthToISO_YM( n ) )\<close> is \<open>n\<close>, and \<^verbatim>\<open>ADMonthToJD( n )\<close>
  is \<^verbatim>\<open>YMDtoJD\<close> of year \<open>n div 12\<close>, month \<open>n mod 12 + 1\<close>, day 1.
\<close>

theorem ADMonth_roundtrip:
  assumes "0 \<le> n" "n < 25769803776"
  shows "ISOtoADMonth (ADMonthToISO_YM n) = Num n
    \<and> ADMonthToJD n = YMDtoJD (n div 12) (Num (n mod 12 + 1)) (Num 1)"
proof -
  note parts = ADMonth_parts[OF assms]
  have q: "0 \<le> n div 12" using assms(1) by (simp add: pos_imp_zdiv_nonneg_iff)
  have r: "0 \<le> n mod 12 + 1" by simp
  have nz: "n mod 12 + 1 \<noteq> 0" using pos_mod_sign[of 12 n] by linarith
  note ty = toString_nonneg[OF q] and tm = pad_props[OF r]
  have "split_on CHR ''-'' (toString (n div 12) @ CHR ''-'' # pad (n mod 12 + 1))
      = [toString (n div 12), pad (n mod 12 + 1)]"
    by (rule split_two_fields) (simp_all add: digits_no_sep(1) ty(1) tm(1))
  then have "ISOtoADMonth (ADMonthToISO_YM n) = Num (n div 12 * 12 + (n mod 12 + 1) - 1)"
    using q nz by (simp add: ISOtoADMonth_def ADMonthToISO_YM_def parts arg_def element_def
        Number_digits[OF ty(1)] Number_digits[OF tm(1)] ty(2) tm(2))
  then show ?thesis by (simp add: ADMonthToJD_def parts)
qed

theorem ADMonth_roundtrip_witness:
  "(0::int) \<le> 24181 \<and> (24181::int) < 25769803776
   \<and> ADMonthToISO_YM 24181 = ''2015-02'' \<and> ISOtoADMonth ''2015-02'' = Num 24181
   \<and> ADMonthToJD 24181 = YMDtoJD 2015 (Num 2) (Num 1)"
proof -
  have s: "ADMonthToISO_YM 24181 = ''2015-02''" by code_simp
  show ?thesis using ADMonth_roundtrip[of 24181] by (simp add: s)
qed

section \<open>Percent of the day\<close>

lemma split_three_fields:
  assumes "sep \<notin> set xs" "sep \<notin> set ys" "sep \<notin> set zs"
  shows "split_on sep (xs @ sep # ys @ sep # zs) = [xs, ys, zs]"
  by (simp only: split_on_first[OF assms(1)] split_on_first[OF assms(2)] split_on_none[OF assms(3)])

text \<open>
  Claim C7. \<^verbatim>\<open>ISO_HMStoPercents\<close> is 0 for \<^verbatim>\<open>00:00:00\<close> and exactly 100 for
  \<^verbatim>\<open>23:59:59\<close>. For every text it is the seconds since midnight that
  \<^verbatim>\<open>ISO_HMStoSeconds\<close> finds, times 100, divided by 86399; for a text
  \<^verbatim>\<open>HH:MM:SS\<close> written from numbers \<open>h\<close>, \<open>m\<close>, \<open>s\<close> that is
  \<open>(3600 h + 60 m + s) * 100 / 86399\<close>.
\<close>

theorem ISO_HMStoPercents_divisor:
  assumes "0 \<le> h" "0 \<le> m" "0 \<le> s"
  shows "ISO_HMStoPercents ''00:00:00'' = Some 0
    \<and> ISO_HMStoPercents ''23:59:59'' = Some 100
    \<and> ISO_HMStoPercents t =
        (case ISO_HMStoSeconds t of Num n \<Rightarrow> Some (of_int n * 100 / 86399) | _ \<Rightarrow> None)
    \<and> ISO_HMStoPercents (pad h @ '':'' @ pad m @ '':'' @ pad s) =
        Some (of_int (h * 3600 + m * 60 + s) * 100 / 86399)"
proof -
  have a: "ISO_HMStoPercents ''00:00:00'' = Some 0" by code_simp
  have b: "ISO_HMStoPercents ''23:59:59'' = Some 100" by code_simp
  have c: "ISO_HMStoPercents t =
      (case ISO_HMStoSeconds t of Num n \<Rightarrow> Some (of_int n * 100 / 86399) | _ \<Rightarrow> None)"
    by (simp add: ISO_HMStoPercents_def ISO_HMStoSeconds_def jsdiv_def split: jsval.splits)
  note ph = pad_props[OF assms(1)] and pm = pad_props[OF assms(2)] and ps = pad_props[OF assms(3)]
  have "split_on CHR '':'' (pad h @ CHR '':'' # pad m @ CHR '':'' # pad s) = [pad h, pad m, pad s]"
    by (rule split_three_fields) (simp_all add: digits_no_sep(2) ph(1) pm(1) ps(1))
  then have d: "ISO_HMStoPercents (pad h @ '':'' @ pad m @ '':'' @ pad s) =
      Some (of_int (h * 3600 + m * 60 + s) * 100 / 86399)"
    using assms by (simp add: ISO_HMStoPercents_def HMStoSeconds_apply_def HMStoSeconds_def
        arg_def element_def jsdiv_def
        Number_digits[OF ph(1)] Number_digits[OF pm(1)] Number_digits[OF ps(1)] ph(2) pm(2) ps(2))
  show ?thesis using a b c d by simp
qed

theorem ISO_HMStoPercents_divisor_witness:
  "(0::int) \<le> 12 \<and> (0::int) \<le> 30 \<and> (0::int) \<le> 5
   \<and> ISO_HMStoPercents ''00:00:00'' = Some 0 \<and> ISO_HMStoPercents ''23:59:59'' = Some 100
   \<and> ISO_HMStoPercents ''12:30:05'' = Some (4500500 / 86399)"
proof -
  have hyps: "(0::int) \<le> 12" "(0::int) \<le> 30" "(0::int) \<le> 5" by simp_all
  have p: "pad 12 @ '':'' @ pad 30 @ '':'' @ pad 5 = ''12:30:05''" by code_simp
  note th = ISO_HMStoPercents_divisor[OF hyps, of "''12:30:05''", unfolded p]
  from th have a: "ISO_HMStoPercents ''00:00:00'' = Some 0"
    and b: "ISO_HMStoPercents ''23:59:59'' = Some 100"
    and d: "ISO_HMStoPercents ''12:30:05'' = Some (of_int (12 * 3600 + 30 * 60 + 5) * 100 / 86399)"
    by blast+
  have "of_int (12 * 3600 + 30 * 60 + 5) * 100 / 86399 = (4500500 / 86399 :: rat)" by simp
  then show ?thesis using a b d by simp
qed

end
